theory Spec2Isabelle
  imports Main "HOL-Library.Word"
begin

unbundle bit_operations_syntax

section \<open>Data model\<close>

text \<open>
  The program is the class \<open>Encrypt\<close> of \<open>src/encrypt.ts\<close> (and its marker-less
  predecessor in \<open>src/unnamed/part_000\<close>).  Both call the crypto-js library that the file
  imports on line 3; the library functions on the call path (typed-array word arrays,
  \<open>concat\<close>, \<open>clamp\<close>, \<open>Utf8.parse\<close>, the buffered block algorithm, CBC, Pkcs7 and AES) and
  the host's \<open>TextEncoder\<close>/\<open>TextDecoder\<close> are embedded function by function below.

  An \<open>ArrayBuffer\<close> is a list of bytes, a JavaScript string a list of UTF-16 code units,
  and a JavaScript number that is the result of a bitwise operator a 32-bit word.  An array
  of numbers is a list; reading past its end gives \<open>undefined\<close>, which every bitwise
  operator of the code turns into 0 (\<open>aget\<close>), and writing past its end extends it
  (\<open>aset\<close>).  Byte offsets are below \<open>2^32\<close>, so that \<open>i >>> 2\<close> is \<open>i div 4\<close>.
\<close>

type_synonym byte = "8 word"
type_synonym int32 = "32 word"
type_synonym ArrayBuffer = "byte list"
type_synonym jsstring = "16 word list"

record WordArray =
  words :: "int32 list"
  sigBytes :: int

text \<open>
  Every exception of the program is an \<open>Error\<close> object told apart by its message:
  \<^item> \<open>InvalidCiphertext\<close>: the message thrown on lines 56 and 61 of \<open>encrypt.ts\<close>
    ("not valid ciphertext");
  \<^item> \<open>CheckKey\<close>: the message thrown on line 87 ("please check that the key is correct");
  \<^item> \<open>RangeError\<close>: \<open>new ArrayBuffer(n)\<close> with a negative \<open>n\<close>;
  \<^item> \<open>URIError\<close>: \<open>encodeURIComponent\<close> on a lone surrogate, inside \<open>Utf8.parse\<close>;
  \<^item> \<open>EncryptFailed e\<close>: the catch block of \<open>encryptText\<close> (line 42), which prefixes the
    message of \<open>e\<close> with "encryption failed: ".
  The catch block of \<open>decryptText\<close> (line 91) throws a new error with the same message.
\<close>

datatype error = InvalidCiphertext | CheckKey | RangeError | URIError | EncryptFailed error

definition aget :: "int32 list \<Rightarrow> nat \<Rightarrow> int32" where
  "aget a i = (if i < length a then a ! i else 0)"

definition aset :: "int32 list \<Rightarrow> nat \<Rightarrow> int32 \<Rightarrow> int32 list" where
  "aset a i v = (if i < length a then a[i := v] else a @ replicate (i - length a) 0 @ [v])"

text \<open>The byte lanes of a word: \<open>t >>> 24\<close>, \<open>(t >>> 16) & 0xff\<close>, \<open>(t >>> 8) & 0xff\<close>,
  \<open>t & 0xff\<close>.\<close>

definition b3 :: "int32 \<Rightarrow> int32" where "b3 t = drop_bit 24 t"
definition b2 :: "int32 \<Rightarrow> int32" where "b2 t = drop_bit 16 t AND 0xff"
definition b1 :: "int32 \<Rightarrow> int32" where "b1 t = drop_bit 8 t AND 0xff"
definition b0 :: "int32 \<Rightarrow> int32" where "b0 t = t AND 0xff"

section \<open>Word arrays (crypto-js \<open>core.js\<close>, \<open>lib-typedarrays.js\<close>)\<close>

text \<open>\<open>WordArray.create(typedArray)\<close> for a \<open>Uint8Array\<close>:
  \<open>for (i = 0; i < byteLength; i++) words[i >>> 2] |= typedArray[i] << (24 - (i % 4) * 8)\<close>.\<close>

definition WordArray_create :: "byte list \<Rightarrow> WordArray" where
  "WordArray_create typedArray =
     \<lparr> words = foldl (\<lambda>ws i. aset ws (i div 4)
                (aget ws (i div 4) OR push_bit (24 - (i mod 4) * 8) (ucast (typedArray ! i))))
              [] [0..<length typedArray],
       sigBytes = int (length typedArray) \<rparr>"

text \<open>\<open>clamp\<close>: \<open>words[sigBytes >>> 2] &= 0xffffffff << (32 - (sigBytes % 4) * 8);
  words.length = Math.ceil(sigBytes / 4)\<close>.  A shift count is taken modulo 32.  Setting the
  length truncates the array or extends it with holes.  The receiver's \<open>sigBytes\<close> is never
  negative where the program calls \<open>clamp\<close> and \<open>concat\<close>.\<close>

definition clamp :: "WordArray \<Rightarrow> WordArray" where
  "clamp w =
     (let n = nat (sigBytes w);
          ws = aset (words w) (n div 4)
                 (aget (words w) (n div 4) AND push_bit ((32 - (n mod 4) * 8) mod 32) 0xffffffff);
          len = (n + 3) div 4
      in w \<lparr> words := take len ws @ replicate (len - length ws) 0 \<rparr>)"

text \<open>\<open>concat\<close> (here \<open>WordArray_concat\<close>): after clamping the receiver, bytes are copied one by one when the
  receiver's length is not a multiple of 4, and word by word otherwise.\<close>

definition concat_bytes :: "int32 list \<Rightarrow> nat \<Rightarrow> int32 list \<Rightarrow> nat \<Rightarrow> int32 list" where
  "concat_bytes thisWords thisSigBytes thatWords thatSigBytes =
     foldl (\<lambda>ws i.
        let thatByte = drop_bit (24 - (i mod 4) * 8) (aget thatWords (i div 4)) AND 0xff
        in aset ws ((thisSigBytes + i) div 4)
             (aget ws ((thisSigBytes + i) div 4)
                OR push_bit (24 - ((thisSigBytes + i) mod 4) * 8) thatByte))
       thisWords [0..<thatSigBytes]"

definition concat_words :: "int32 list \<Rightarrow> nat \<Rightarrow> int32 list \<Rightarrow> nat \<Rightarrow> int32 list" where
  "concat_words thisWords thisSigBytes thatWords thatSigBytes =
     foldl (\<lambda>ws k. aset ws ((thisSigBytes + 4 * k) div 4) (aget thatWords k))
       thisWords [0..<(thatSigBytes + 3) div 4]"

definition WordArray_concat :: "WordArray \<Rightarrow> WordArray \<Rightarrow> WordArray" where
  "WordArray_concat this that =
     (let thisSigBytes = nat (sigBytes this);
          thatSigBytes = nat (sigBytes that);
          thisWords = words (clamp this)
      in \<lparr> words = (if thisSigBytes mod 4 \<noteq> 0
                    then concat_bytes thisWords thisSigBytes (words that) thatSigBytes
                    else concat_words thisWords thisSigBytes (words that) thatSigBytes),
           sigBytes = sigBytes this + sigBytes that \<rparr>)"

section \<open>\<open>Encrypt.wordArrayToArrayBuffer\<close> (\<open>encrypt.ts\<close>, lines 11-20)\<close>

definition wordArrayToArrayBuffer :: "WordArray \<Rightarrow> error + ArrayBuffer" where
  "wordArrayToArrayBuffer wordArray =
     (if sigBytes wordArray < 0 then Inl RangeError
      else Inr (map (\<lambda>i. ucast (drop_bit (24 - (i mod 4) * 8) (aget (words wordArray) (i div 4))
                                  AND 0xff))
                  [0..<nat (sigBytes wordArray)]))"

text \<open>\<open>MAGIC_WORDS = CryptoJS.lib.WordArray.create([0x000273db], 4)\<close> (line 5).\<close>

definition MAGIC_WORDS :: WordArray where
  "MAGIC_WORDS = \<lparr> words = [0x000273db], sigBytes = 4 \<rparr>"

section \<open>AES (crypto-js \<open>aes.js\<close>)\<close>

subsection \<open>Lookup tables\<close>

text \<open>The library fills its tables once, when it is loaded.  \<open>d\<close> doubles in GF(2^8):
  \<open>d[i] = i < 128 ? i << 1 : (i << 1) ^ 0x11b\<close>.\<close>

definition d :: "int32 list" where
  "d = map (\<lambda>i. if i < 128 then push_bit 1 (of_nat i) else push_bit 1 (of_nat i) XOR 0x11b)
         [0..<256]"

definition dd :: "int32 \<Rightarrow> int32" where
  "dd x = aget d (unat x)"

text \<open>\<open>SBOX\<close> and \<open>INV_SBOX\<close> are the AES S-box and its inverse: the values that the
  start-up loop (\<open>SBOX[x] = sx; INV_SBOX[sx] = x\<close>, with \<open>sx\<close> the affine image of the
  inverse of \<open>x\<close>) stores.\<close>

definition SBOX :: "int32 list" where
  "SBOX =
    [0x63, 0x7c, 0x77, 0x7b, 0xf2, 0x6b, 0x6f, 0xc5,
     0x30, 0x1, 0x67, 0x2b, 0xfe, 0xd7, 0xab, 0x76,
     0xca, 0x82, 0xc9, 0x7d, 0xfa, 0x59, 0x47, 0xf0,
     0xad, 0xd4, 0xa2, 0xaf, 0x9c, 0xa4, 0x72, 0xc0,
     0xb7, 0xfd, 0x93, 0x26, 0x36, 0x3f, 0xf7, 0xcc,
     0x34, 0xa5, 0xe5, 0xf1, 0x71, 0xd8, 0x31, 0x15,
     0x4, 0xc7, 0x23, 0xc3, 0x18, 0x96, 0x5, 0x9a,
     0x7, 0x12, 0x80, 0xe2, 0xeb, 0x27, 0xb2, 0x75,
     0x9, 0x83, 0x2c, 0x1a, 0x1b, 0x6e, 0x5a, 0xa0,
     0x52, 0x3b, 0xd6, 0xb3, 0x29, 0xe3, 0x2f, 0x84,
     0x53, 0xd1, 0x0, 0xed, 0x20, 0xfc, 0xb1, 0x5b,
     0x6a, 0xcb, 0xbe, 0x39, 0x4a, 0x4c, 0x58, 0xcf,
     0xd0, 0xef, 0xaa, 0xfb, 0x43, 0x4d, 0x33, 0x85,
     0x45, 0xf9, 0x2, 0x7f, 0x50, 0x3c, 0x9f, 0xa8,
     0x51, 0xa3, 0x40, 0x8f, 0x92, 0x9d, 0x38, 0xf5,
     0xbc, 0xb6, 0xda, 0x21, 0x10, 0xff, 0xf3, 0xd2,
     0xcd, 0xc, 0x13, 0xec, 0x5f, 0x97, 0x44, 0x17,
     0xc4, 0xa7, 0x7e, 0x3d, 0x64, 0x5d, 0x19, 0x73,
     0x60, 0x81, 0x4f, 0xdc, 0x22, 0x2a, 0x90, 0x88,
     0x46, 0xee, 0xb8, 0x14, 0xde, 0x5e, 0xb, 0xdb,
     0xe0, 0x32, 0x3a, 0xa, 0x49, 0x6, 0x24, 0x5c,
     0xc2, 0xd3, 0xac, 0x62, 0x91, 0x95, 0xe4, 0x79,
     0xe7, 0xc8, 0x37, 0x6d, 0x8d, 0xd5, 0x4e, 0xa9,
     0x6c, 0x56, 0xf4, 0xea, 0x65, 0x7a, 0xae, 0x8,
     0xba, 0x78, 0x25, 0x2e, 0x1c, 0xa6, 0xb4, 0xc6,
     0xe8, 0xdd, 0x74, 0x1f, 0x4b, 0xbd, 0x8b, 0x8a,
     0x70, 0x3e, 0xb5, 0x66, 0x48, 0x3, 0xf6, 0xe,
     0x61, 0x35, 0x57, 0xb9, 0x86, 0xc1, 0x1d, 0x9e,
     0xe1, 0xf8, 0x98, 0x11, 0x69, 0xd9, 0x8e, 0x94,
     0x9b, 0x1e, 0x87, 0xe9, 0xce, 0x55, 0x28, 0xdf,
     0x8c, 0xa1, 0x89, 0xd, 0xbf, 0xe6, 0x42, 0x68,
     0x41, 0x99, 0x2d, 0xf, 0xb0, 0x54, 0xbb, 0x16]"

definition INV_SBOX :: "int32 list" where
  "INV_SBOX =
    [0x52, 0x9, 0x6a, 0xd5, 0x30, 0x36, 0xa5, 0x38,
     0xbf, 0x40, 0xa3, 0x9e, 0x81, 0xf3, 0xd7, 0xfb,
     0x7c, 0xe3, 0x39, 0x82, 0x9b, 0x2f, 0xff, 0x87,
     0x34, 0x8e, 0x43, 0x44, 0xc4, 0xde, 0xe9, 0xcb,
     0x54, 0x7b, 0x94, 0x32, 0xa6, 0xc2, 0x23, 0x3d,
     0xee, 0x4c, 0x95, 0xb, 0x42, 0xfa, 0xc3, 0x4e,
     0x8, 0x2e, 0xa1, 0x66, 0x28, 0xd9, 0x24, 0xb2,
     0x76, 0x5b, 0xa2, 0x49, 0x6d, 0x8b, 0xd1, 0x25,
     0x72, 0xf8, 0xf6, 0x64, 0x86, 0x68, 0x98, 0x16,
     0xd4, 0xa4, 0x5c, 0xcc, 0x5d, 0x65, 0xb6, 0x92,
     0x6c, 0x70, 0x48, 0x50, 0xfd, 0xed, 0xb9, 0xda,
     0x5e, 0x15, 0x46, 0x57, 0xa7, 0x8d, 0x9d, 0x84,
     0x90, 0xd8, 0xab, 0x0, 0x8c, 0xbc, 0xd3, 0xa,
     0xf7, 0xe4, 0x58, 0x5, 0xb8, 0xb3, 0x45, 0x6,
     0xd0, 0x2c, 0x1e, 0x8f, 0xca, 0x3f, 0xf, 0x2,
     0xc1, 0xaf, 0xbd, 0x3, 0x1, 0x13, 0x8a, 0x6b,
     0x3a, 0x91, 0x11, 0x41, 0x4f, 0x67, 0xdc, 0xea,
     0x97, 0xf2, 0xcf, 0xce, 0xf0, 0xb4, 0xe6, 0x73,
     0x96, 0xac, 0x74, 0x22, 0xe7, 0xad, 0x35, 0x85,
     0xe2, 0xf9, 0x37, 0xe8, 0x1c, 0x75, 0xdf, 0x6e,
     0x47, 0xf1, 0x1a, 0x71, 0x1d, 0x29, 0xc5, 0x89,
     0x6f, 0xb7, 0x62, 0xe, 0xaa, 0x18, 0xbe, 0x1b,
     0xfc, 0x56, 0x3e, 0x4b, 0xc6, 0xd2, 0x79, 0x20,
     0x9a, 0xdb, 0xc0, 0xfe, 0x78, 0xcd, 0x5a, 0xf4,
     0x1f, 0xdd, 0xa8, 0x33, 0x88, 0x7, 0xc7, 0x31,
     0xb1, 0x12, 0x10, 0x59, 0x27, 0x80, 0xec, 0x5f,
     0x60, 0x51, 0x7f, 0xa9, 0x19, 0xb5, 0x4a, 0xd,
     0x2d, 0xe5, 0x7a, 0x9f, 0x93, 0xc9, 0x9c, 0xef,
     0xa0, 0xe0, 0x3b, 0x4d, 0xae, 0x2a, 0xf5, 0xb0,
     0xc8, 0xeb, 0xbb, 0x3c, 0x83, 0x53, 0x99, 0x61,
     0x17, 0x2b, 0x4, 0x7e, 0xba, 0x77, 0xd6, 0x26,
     0xe1, 0x69, 0x14, 0x63, 0x55, 0x21, 0xc, 0x7d]"

text \<open>The mix tables, entry by entry as the start-up loop stores them:
  \<open>t = (d[sx] * 0x101) ^ (sx * 0x1010100)\<close> and \<open>SUB_MIX_0[x] = (t << 24) | (t >>> 8)\<close>,
  \<open>SUB_MIX_1[x] = (t << 16) | (t >>> 16)\<close>, \<open>SUB_MIX_2[x] = (t << 8) | (t >>> 24)\<close>,
  \<open>SUB_MIX_3[x] = t\<close>, where \<open>sx = SBOX[x]\<close>; and, with \<open>x2 = d[x]\<close>, \<open>x4 = d[x2]\<close>,
  \<open>x8 = d[x4]\<close>, \<open>t = (x8 * 0x1010101) ^ (x4 * 0x10001) ^ (x2 * 0x101) ^ (x * 0x1010100)\<close>
  and \<open>INV_SUB_MIX_0[sx] = (t << 24) | (t >>> 8)\<close> and so on, where \<open>x = INV_SBOX[sx]\<close>.\<close>

definition sub_mix_t :: "int32 \<Rightarrow> int32" where
  "sub_mix_t sx = (dd sx * 0x101) XOR (sx * 0x1010100)"

definition inv_sub_mix_t :: "int32 \<Rightarrow> int32" where
  "inv_sub_mix_t x =
     (let x2 = dd x; x4 = dd x2; x8 = dd x4
      in (x8 * 0x1010101) XOR (x4 * 0x10001) XOR (x2 * 0x101) XOR (x * 0x1010100))"

definition SUB_MIX_0 :: "int32 list" where
  "SUB_MIX_0 = map (\<lambda>x. let t = sub_mix_t (aget SBOX x) in push_bit 24 t OR drop_bit 8 t) [0..<256]"

definition SUB_MIX_1 :: "int32 list" where
  "SUB_MIX_1 = map (\<lambda>x. let t = sub_mix_t (aget SBOX x) in push_bit 16 t OR drop_bit 16 t) [0..<256]"

definition SUB_MIX_2 :: "int32 list" where
  "SUB_MIX_2 = map (\<lambda>x. let t = sub_mix_t (aget SBOX x) in push_bit 8 t OR drop_bit 24 t) [0..<256]"

definition SUB_MIX_3 :: "int32 list" where
  "SUB_MIX_3 = map (\<lambda>x. sub_mix_t (aget SBOX x)) [0..<256]"

definition INV_SUB_MIX_0 :: "int32 list" where
  "INV_SUB_MIX_0 =
     map (\<lambda>sx. let t = inv_sub_mix_t (aget INV_SBOX sx) in push_bit 24 t OR drop_bit 8 t) [0..<256]"

definition INV_SUB_MIX_1 :: "int32 list" where
  "INV_SUB_MIX_1 =
     map (\<lambda>sx. let t = inv_sub_mix_t (aget INV_SBOX sx) in push_bit 16 t OR drop_bit 16 t) [0..<256]"

definition INV_SUB_MIX_2 :: "int32 list" where
  "INV_SUB_MIX_2 =
     map (\<lambda>sx. let t = inv_sub_mix_t (aget INV_SBOX sx) in push_bit 8 t OR drop_bit 24 t) [0..<256]"

definition INV_SUB_MIX_3 :: "int32 list" where
  "INV_SUB_MIX_3 = map (\<lambda>sx. inv_sub_mix_t (aget INV_SBOX sx)) [0..<256]"

definition RCON :: "int32 list" where
  "RCON = [0x00, 0x01, 0x02, 0x04, 0x08, 0x10, 0x20, 0x40, 0x80, 0x1b, 0x36]"

subsection \<open>Key schedule (\<open>AES._doReset\<close>)\<close>

definition RotWord :: "int32 \<Rightarrow> int32" where
  "RotWord t = push_bit 8 t OR drop_bit 24 t"

definition SubWord :: "int32 \<Rightarrow> int32" where
  "SubWord t =
     push_bit 24 (aget SBOX (unat (b3 t))) OR push_bit 16 (aget SBOX (unat (b2 t)))
       OR push_bit 8 (aget SBOX (unat (b1 t))) OR aget SBOX (unat (b0 t))"

text \<open>
  \<open>keySize = key.sigBytes / 4\<close>, \<open>nRounds = keySize + 6\<close> and \<open>ksRows = (nRounds + 1) * 4\<close>
  are doubles; \<open>keySize\<close> and \<open>nRounds\<close> are integers only when the key has a multiple of 4
  bytes.  With \<open>kb = key.sigBytes\<close> the tests of the loop body are written multiplied by 4:
  \<open>ksRow < keySize\<close> is \<open>4 * ksRow < kb\<close>; \<open>!(ksRow % keySize)\<close> holds when the remainder is
  0 or, for \<open>keySize = 0\<close>, \<open>NaN\<close>; \<open>(ksRow / keySize) | 0\<close> is \<open>(4 * ksRow) div kb\<close>, and 0 for
  \<open>keySize = 0\<close>; \<open>ksRow % keySize == 4\<close> is \<open>(4 * ksRow) mod kb = 16\<close>.  The index
  \<open>ksRow - keySize\<close> names an array element only when it is an integer; otherwise
  \<open>keySchedule[ksRow - keySize]\<close> is \<open>undefined\<close>.  \<open>ksRows\<close> is \<open>kb + 28\<close>.
\<close>

definition ks_row :: "int32 list \<Rightarrow> nat \<Rightarrow> int32 list \<Rightarrow> nat \<Rightarrow> int32" where
  "ks_row keyWords kb keySchedule ksRow =
     (if 4 * ksRow < kb then aget keyWords ksRow
      else
        let t0 = (if ksRow = 0 then 0 else aget keySchedule (ksRow - 1));
            t = (if kb = 0 \<or> (4 * ksRow) mod kb = 0
                 then SubWord (RotWord t0)
                        XOR push_bit 24 (aget RCON (if kb = 0 then 0 else (4 * ksRow) div kb))
                 else if 24 < kb \<and> (4 * ksRow) mod kb = 16 then SubWord t0
                 else t0)
        in (if kb mod 4 = 0 then aget keySchedule (ksRow - kb div 4) else 0) XOR t)"

definition inv_ks_row :: "int32 list \<Rightarrow> nat \<Rightarrow> nat \<Rightarrow> int32" where
  "inv_ks_row keySchedule ksRows invKsRow =
     (let ksRow = ksRows - invKsRow;
          t = (if invKsRow mod 4 \<noteq> 0 then aget keySchedule ksRow
               else if ksRow < 4 then 0 else aget keySchedule (ksRow - 4))
      in if invKsRow < 4 \<or> ksRow \<le> 4 then t
         else aget INV_SUB_MIX_0 (unat (aget SBOX (unat (b3 t))))
                XOR aget INV_SUB_MIX_1 (unat (aget SBOX (unat (b2 t))))
                XOR aget INV_SUB_MIX_2 (unat (aget SBOX (unat (b1 t))))
                XOR aget INV_SUB_MIX_3 (unat (aget SBOX (unat (b0 t)))))"

text \<open>The cipher object after \<open>_doReset\<close>.  \<open>nRounds4\<close> is \<open>4 * nRounds\<close>.\<close>

record AES =
  keySchedule :: "int32 list"
  invKeySchedule :: "int32 list"
  nRounds4 :: nat

definition AES_doReset :: "WordArray \<Rightarrow> AES" where
  "AES_doReset key =
     (let keyWords = words key;
          kb = nat (sigBytes key);
          ksRows = kb + 28;
          ks = foldl (\<lambda>ks ksRow. aset ks ksRow (ks_row keyWords kb ks ksRow)) [] [0..<ksRows];
          inv = foldl (\<lambda>inv invKsRow. aset inv invKsRow (inv_ks_row ks ksRows invKsRow))
                  [] [0..<ksRows]
      in \<lparr> keySchedule = ks, invKeySchedule = inv, nRounds4 = kb + 24 \<rparr>)"

subsection \<open>Block transform (\<open>AES._doCryptBlock\<close>, \<open>encryptBlock\<close>, \<open>decryptBlock\<close>)\<close>

type_synonym state = "int32 \<times> int32 \<times> int32 \<times> int32"
type_synonym mix_tables = "int32 list \<times> int32 list \<times> int32 list \<times> int32 list"

definition mix_column :: "mix_tables \<Rightarrow> int32 \<Rightarrow> int32 \<Rightarrow> int32 \<Rightarrow> int32 \<Rightarrow> int32" where
  "mix_column T sa sb sc sd =
     (case T of (T0, T1, T2, T3) \<Rightarrow>
        aget T0 (unat (b3 sa)) XOR aget T1 (unat (b2 sb)) XOR aget T2 (unat (b1 sc))
          XOR aget T3 (unat (b0 sd)))"

definition mix_round :: "mix_tables \<Rightarrow> int32 list \<Rightarrow> nat \<Rightarrow> state \<Rightarrow> state" where
  "mix_round T ks ksRow s =
     (case s of (s0, s1, s2, s3) \<Rightarrow>
        (mix_column T s0 s1 s2 s3 XOR aget ks ksRow,
         mix_column T s1 s2 s3 s0 XOR aget ks (ksRow + 1),
         mix_column T s2 s3 s0 s1 XOR aget ks (ksRow + 2),
         mix_column T s3 s0 s1 s2 XOR aget ks (ksRow + 3)))"

definition sub_column :: "int32 list \<Rightarrow> int32 \<Rightarrow> int32 \<Rightarrow> int32 \<Rightarrow> int32 \<Rightarrow> int32" where
  "sub_column S sa sb sc sd =
     push_bit 24 (aget S (unat (b3 sa))) OR push_bit 16 (aget S (unat (b2 sb)))
       OR push_bit 8 (aget S (unat (b1 sc))) OR aget S (unat (b0 sd))"

definition last_round :: "int32 list \<Rightarrow> int32 list \<Rightarrow> nat \<Rightarrow> state \<Rightarrow> state" where
  "last_round S ks ksRow s =
     (case s of (s0, s1, s2, s3) \<Rightarrow>
        (sub_column S s0 s1 s2 s3 XOR aget ks ksRow,
         sub_column S s1 s2 s3 s0 XOR aget ks (ksRow + 1),
         sub_column S s2 s3 s0 s1 XOR aget ks (ksRow + 2),
         sub_column S s3 s0 s1 s2 XOR aget ks (ksRow + 3)))"

text \<open>\<open>for (round = 1; round < nRounds; round++)\<close> runs for the integers below \<open>nRounds\<close>,
  that is below \<open>(nRounds4 + 3) div 4\<close>; each pass reads four rows (\<open>ksRow++\<close>).\<close>

definition doCryptBlock ::
  "int32 list \<Rightarrow> nat \<Rightarrow> int32 list \<Rightarrow> nat \<Rightarrow> mix_tables \<Rightarrow> int32 list \<Rightarrow> int32 list" where
  "doCryptBlock M offset ks nr4 T S =
     (let s = (aget M offset XOR aget ks 0, aget M (offset + 1) XOR aget ks 1,
               aget M (offset + 2) XOR aget ks 2, aget M (offset + 3) XOR aget ks 3);
          (s', ksRow) = foldl (\<lambda>(s, ksRow) round. (mix_round T ks ksRow s, ksRow + 4)) (s, 4)
                          [1..<(nr4 + 3) div 4]
      in case last_round S ks ksRow s' of (t0, t1, t2, t3) \<Rightarrow>
           aset (aset (aset (aset M offset t0) (offset + 1) t1) (offset + 2) t2) (offset + 3) t3)"

definition encryptBlock :: "AES \<Rightarrow> int32 list \<Rightarrow> nat \<Rightarrow> int32 list" where
  "encryptBlock aes M offset =
     doCryptBlock M offset (keySchedule aes) (nRounds4 aes)
       (SUB_MIX_0, SUB_MIX_1, SUB_MIX_2, SUB_MIX_3) SBOX"

text \<open>\<open>decryptBlock\<close> swaps the 2nd and 4th words, runs the same transform with the inverse
  schedule and tables, and swaps back.\<close>

definition swap13 :: "int32 list \<Rightarrow> nat \<Rightarrow> int32 list" where
  "swap13 M offset =
     (let t = aget M (offset + 1);
          M1 = aset M (offset + 1) (aget M (offset + 3))
      in aset M1 (offset + 3) t)"

definition decryptBlock :: "AES \<Rightarrow> int32 list \<Rightarrow> nat \<Rightarrow> int32 list" where
  "decryptBlock aes M offset =
     swap13 (doCryptBlock (swap13 M offset) offset (invKeySchedule aes) (nRounds4 aes)
               (INV_SUB_MIX_0, INV_SUB_MIX_1, INV_SUB_MIX_2, INV_SUB_MIX_3) INV_SBOX) offset"

section \<open>Block cipher framework (crypto-js \<open>cipher-core.js\<close>)\<close>

subsection \<open>CBC\<close>

text \<open>The mode object holds the block to chain with: the words of the IV before the first
  block, \<open>_prevBlock\<close> afterwards.  \<open>xorBlock\<close> reads its first four elements.\<close>

definition xorBlock :: "int32 list \<Rightarrow> nat \<Rightarrow> int32 list \<Rightarrow> int32 list" where
  "xorBlock ws offset block =
     foldl (\<lambda>ws i. aset ws (offset + i) (aget ws (offset + i) XOR aget block i)) ws [0..<4]"

definition CBC_Encryptor_processBlock ::
  "AES \<Rightarrow> int32 list \<times> int32 list \<Rightarrow> nat \<Rightarrow> int32 list \<times> int32 list" where
  "CBC_Encryptor_processBlock aes st offset =
     (case st of (ws, prev) \<Rightarrow>
        let ws' = encryptBlock aes (xorBlock ws offset prev) offset
        in (ws', take 4 (drop offset ws')))"

definition CBC_Decryptor_processBlock ::
  "AES \<Rightarrow> int32 list \<times> int32 list \<Rightarrow> nat \<Rightarrow> int32 list \<times> int32 list" where
  "CBC_Decryptor_processBlock aes st offset =
     (case st of (ws, prev) \<Rightarrow>
        let thisBlock = take 4 (drop offset ws)
        in (xorBlock (decryptBlock aes ws offset) offset prev, thisBlock))"

subsection \<open>\<open>BufferedBlockAlgorithm._process\<close> with \<open>doFlush\<close>\<close>

text \<open>\<open>nBlocksReady = Math.ceil(dataSigBytes / 16)\<close>; every block is processed in place, and
  \<open>splice(0, nWordsReady)\<close> hands out the processed words.  The data's \<open>sigBytes\<close> is not
  negative here.\<close>

definition process ::
  "(int32 list \<times> int32 list \<Rightarrow> nat \<Rightarrow> int32 list \<times> int32 list) \<Rightarrow> int32 list \<Rightarrow> WordArray
     \<Rightarrow> WordArray" where
  "process processBlock iv data =
     (let dataSigBytes = nat (sigBytes data);
          nBlocksReady = (dataSigBytes + 15) div 16;
          nWordsReady = nBlocksReady * 4;
          nBytesReady = min (nWordsReady * 4) dataSigBytes;
          dataWords = fst (foldl processBlock (words data, iv) (map (\<lambda>k. 4 * k) [0..<nBlocksReady]))
      in \<lparr> words = take nWordsReady dataWords, sigBytes = int nBytesReady \<rparr>)"

subsection \<open>Pkcs7\<close>

definition Pkcs7_pad :: "WordArray \<Rightarrow> WordArray" where
  "Pkcs7_pad data =
     (let nPaddingBytes = 16 - nat (sigBytes data) mod 16;
          n = of_nat nPaddingBytes;
          paddingWord = push_bit 24 n OR push_bit 16 n OR push_bit 8 n OR n;
          paddingWords = replicate ((nPaddingBytes + 3) div 4) paddingWord
      in WordArray_concat data \<lparr> words = paddingWords, sigBytes = int nPaddingBytes \<rparr>)"

text \<open>\<open>unpad\<close> reads the last byte and subtracts it from \<open>sigBytes\<close>; it checks nothing.
  \<open>(sigBytes - 1) >>> 2\<close> is \<open>(sigBytes - 1) div 4\<close> for a byte offset; for the operand -1 of
  an empty word array it is taken on the unsigned 32-bit value, far past the end of the
  array.\<close>

definition ushr2 :: "int \<Rightarrow> nat" where
  "ushr2 i = (if i < 0 then nat ((i mod 4294967296) div 4) else nat (i div 4))"

definition Pkcs7_unpad :: "WordArray \<Rightarrow> WordArray" where
  "Pkcs7_unpad data =
     (let nPaddingBytes = aget (words data) (ushr2 (sigBytes data - 1)) AND 0xff
      in data \<lparr> sigBytes := sigBytes data - uint nPaddingBytes \<rparr>)"

subsection \<open>\<open>CryptoJS.AES.encrypt\<close> and \<open>CryptoJS.AES.decrypt\<close> with a word-array key\<close>

text \<open>A key that is a word array selects the plain serializable cipher (no password
  derivation, no salt): the cipher is reset with the key, the message is appended to the
  empty buffer, and \<open>finalize\<close> pads and processes (or processes and unpads).  The model
  returns the \<open>ciphertext\<close> field of the result of \<open>encrypt\<close>.\<close>

definition AES_encrypt :: "WordArray \<Rightarrow> WordArray \<Rightarrow> WordArray \<Rightarrow> WordArray" where
  "AES_encrypt message key iv =
     (let aes = AES_doReset key;
          data = WordArray_concat \<lparr> words = [], sigBytes = 0 \<rparr> message
      in process (CBC_Encryptor_processBlock aes) (words iv) (Pkcs7_pad data))"

definition AES_decrypt :: "WordArray \<Rightarrow> WordArray \<Rightarrow> WordArray \<Rightarrow> WordArray" where
  "AES_decrypt ciphertext key iv =
     (let aes = AES_doReset key;
          data = WordArray_concat \<lparr> words = [], sigBytes = 0 \<rparr> ciphertext
      in Pkcs7_unpad (process (CBC_Decryptor_processBlock aes) (words iv) data))"

section \<open>Strings and UTF-8 (host \<open>TextEncoder\<close>, \<open>TextDecoder\<close>; crypto-js \<open>enc-utf8\<close>)\<close>

definition is_high :: "16 word \<Rightarrow> bool" where
  "is_high c = (0xD800 \<le> c \<and> c < 0xDC00)"

definition is_low :: "16 word \<Rightarrow> bool" where
  "is_low c = (0xDC00 \<le> c \<and> c < 0xE000)"

text \<open>\<open>key.slice(a, b)\<close> for \<open>0 \<le> a \<le> b\<close> counts UTF-16 code units.\<close>

definition slice :: "jsstring \<Rightarrow> nat \<Rightarrow> nat \<Rightarrow> jsstring" where
  "slice s a b = take (b - a) (drop a s)"

text \<open>The scalar values of a string: a surrogate pair is one value, a lone surrogate is
  replaced by U+FFFD.\<close>

definition scalar1 :: "16 word \<Rightarrow> nat" where
  "scalar1 c = (if is_high c \<or> is_low c then 0xFFFD else unat c)"

definition scalar2 :: "16 word \<Rightarrow> 16 word \<Rightarrow> nat" where
  "scalar2 c e = 0x10000 + (unat c - 0xD800) * 1024 + (unat e - 0xDC00)"

fun scalars :: "jsstring \<Rightarrow> nat list" where
  "scalars [] = []"
| "scalars [c] = [scalar1 c]"
| "scalars (c # e # cs) =
     (if is_high c \<and> is_low e then scalar2 c e # scalars cs else scalar1 c # scalars (e # cs))"

definition utf8_bytes :: "nat \<Rightarrow> byte list" where
  "utf8_bytes cp =
     (if cp < 0x80 then [of_nat cp]
      else if cp < 0x800 then [of_nat (0xC0 + cp div 64), of_nat (0x80 + cp mod 64)]
      else if cp < 0x10000 then
        [of_nat (0xE0 + cp div 4096), of_nat (0x80 + cp div 64 mod 64), of_nat (0x80 + cp mod 64)]
      else
        [of_nat (0xF0 + cp div 262144), of_nat (0x80 + cp div 4096 mod 64),
         of_nat (0x80 + cp div 64 mod 64), of_nat (0x80 + cp mod 64)])"

definition TextEncoder_encode :: "jsstring \<Rightarrow> byte list" where
  "TextEncoder_encode s = List.concat (map utf8_bytes (scalars s))"

text \<open>The UTF-8 decoder of the Encoding standard, as a state machine over the bytes: the
  code point under construction, the continuation bytes seen and needed, and the bounds of
  the next continuation byte.  An ill-formed sequence gives U+FFFD, and the byte that broke
  it is read again.\<close>

definition utf8_lead :: "nat \<Rightarrow> (nat \<times> nat \<times> nat \<times> nat) option" where
  "utf8_lead v =
     (if 0xC2 \<le> v \<and> v \<le> 0xDF then Some (v mod 32, 1, 0x80, 0xBF)
      else if 0xE0 \<le> v \<and> v \<le> 0xEF then
        Some (v mod 16, 2, if v = 0xE0 then 0xA0 else 0x80, if v = 0xED then 0x9F else 0xBF)
      else if 0xF0 \<le> v \<and> v \<le> 0xF4 then
        Some (v mod 8, 3, if v = 0xF0 then 0x90 else 0x80, if v = 0xF4 then 0x8F else 0xBF)
      else None)"

function utf8_decode :: "nat \<Rightarrow> nat \<Rightarrow> nat \<Rightarrow> nat \<Rightarrow> nat \<Rightarrow> byte list \<Rightarrow> nat list" where
  "utf8_decode cp seen needed lo hi [] = (if needed \<noteq> 0 then [0xFFFD] else [])"
| "utf8_decode cp seen needed lo hi (b # bs) =
     (if needed = 0 then
        (if unat b \<le> 0x7F then unat b # utf8_decode 0 0 0 0x80 0xBF bs
         else case utf8_lead (unat b) of
                Some (cp', needed', lo', hi') \<Rightarrow> utf8_decode cp' 0 needed' lo' hi' bs
              | None \<Rightarrow> 0xFFFD # utf8_decode 0 0 0 0x80 0xBF bs)
      else if unat b < lo \<or> hi < unat b then 0xFFFD # utf8_decode 0 0 0 0x80 0xBF (b # bs)
      else if seen + 1 \<noteq> needed then
        utf8_decode (cp * 64 + unat b mod 64) (seen + 1) needed 0x80 0xBF bs
      else (cp * 64 + unat b mod 64) # utf8_decode 0 0 0 0x80 0xBF bs)"
  by pat_completeness auto
termination
  by (relation "measure (\<lambda>(cp, seen, needed, lo, hi, bs). 2 * length bs + (if needed = 0 then 0 else 1))")
     auto

definition utf16_units :: "nat \<Rightarrow> 16 word list" where
  "utf16_units cp =
     (if cp < 0x10000 then [of_nat cp]
      else [of_nat (0xD800 + (cp - 0x10000) div 1024), of_nat (0xDC00 + (cp - 0x10000) mod 1024)])"

text \<open>\<open>new TextDecoder().decode(bytes)\<close>: UTF-8, not fatal, and a leading byte order mark
  U+FEFF is dropped.\<close>

definition TextDecoder_decode :: "byte list \<Rightarrow> jsstring" where
  "TextDecoder_decode bytes =
     (let cps = utf8_decode 0 0 0 0x80 0xBF bytes
      in List.concat (map utf16_units (case cps of [] \<Rightarrow> [] | c # cs \<Rightarrow> if c = 0xFEFF then cs else cps)))"

text \<open>\<open>Latin1.parse\<close>: \<open>words[i >>> 2] |= (str.charCodeAt(i) & 0xff) << (24 - (i % 4) * 8)\<close>.\<close>

definition Latin1_parse :: "jsstring \<Rightarrow> WordArray" where
  "Latin1_parse latin1Str =
     \<lparr> words = foldl (\<lambda>ws i. aset ws (i div 4)
                (aget ws (i div 4) OR push_bit (24 - (i mod 4) * 8) (ucast (latin1Str ! i) AND 0xff)))
              [] [0..<length latin1Str],
       sigBytes = int (length latin1Str) \<rparr>"

text \<open>\<open>Utf8.parse(s) = Latin1.parse(unescape(encodeURIComponent(s)))\<close>.
  \<open>encodeURIComponent\<close> throws a \<open>URIError\<close> on a lone surrogate; otherwise
  \<open>unescape\<close> of its result is the string whose code units are the UTF-8 bytes of \<open>s\<close>.\<close>

fun lone_surrogate :: "jsstring \<Rightarrow> bool" where
  "lone_surrogate [] = False"
| "lone_surrogate [c] = (is_high c \<or> is_low c)"
| "lone_surrogate (c # e # cs) =
     (if is_high c \<and> is_low e then lone_surrogate cs
      else (is_high c \<or> is_low c) \<or> lone_surrogate (e # cs))"

definition Utf8_parse :: "jsstring \<Rightarrow> error + WordArray" where
  "Utf8_parse s =
     (if lone_surrogate s then Inl URIError
      else Inr (Latin1_parse (map ucast (List.concat (map utf8_bytes (scalars s))))))"

section \<open>The class \<open>Encrypt\<close> (\<open>src/encrypt.ts\<close>)\<close>

text \<open>The derived material, as both methods compute it: the key is the word array of the
  UTF-8 bytes of \<open>key.slice(16, 48)\<close>, the IV is \<open>Utf8.parse\<close> of the decoded UTF-8 bytes of
  \<open>key.slice(0, 16)\<close>.\<close>

definition derive_key :: "jsstring \<Rightarrow> WordArray" where
  "derive_key key = WordArray_create (TextEncoder_encode (slice key 16 48))"

definition derive_iv :: "jsstring \<Rightarrow> error + WordArray" where
  "derive_iv key = Utf8_parse (TextDecoder_decode (TextEncoder_encode (slice key 0 16)))"

text \<open>\<open>encryptText\<close> (lines 23-44).  \<open>MAGIC_WORDS.clone()\<close> is a copy, so the marker itself
  is never modified.\<close>

definition encryptText :: "ArrayBuffer \<Rightarrow> jsstring \<Rightarrow> error + ArrayBuffer" where
  "encryptText buffer key =
     (case derive_iv key of
        Inl e \<Rightarrow> Inl (EncryptFailed e)
      | Inr iv \<Rightarrow>
          let encrypted = AES_encrypt (WordArray_create buffer) (derive_key key) iv
          in (case wordArrayToArrayBuffer (WordArray_concat MAGIC_WORDS encrypted) of
                Inl e \<Rightarrow> Inl (EncryptFailed e)
              | Inr frame \<Rightarrow> Inr frame))"

text \<open>\<open>decryptText\<close> (lines 47-93) in its two stages: the frame checks of lines 49-67, which
  give the word array handed to the cipher, and the decryption of lines 69-89.  An
  \<open>ArrayBuffer\<close> is an object, and every object is truthy.\<close>

definition unwrap :: "ArrayBuffer \<Rightarrow> error + WordArray" where
  "unwrap buffer =
     (let ciphertext = WordArray_create buffer
      in if sigBytes ciphertext < 4 then Inl InvalidCiphertext
         else
           let magicGot = aget (words ciphertext) 0
           in if magicGot \<noteq> aget (words MAGIC_WORDS) 0 then Inl InvalidCiphertext
              else Inr \<lparr> words = drop 1 (words ciphertext),
                         sigBytes = sigBytes ciphertext - sigBytes MAGIC_WORDS \<rparr>)"

definition truthy :: "ArrayBuffer \<Rightarrow> bool" where
  "truthy buf = True"

definition decrypt_content :: "WordArray \<Rightarrow> jsstring \<Rightarrow> error + ArrayBuffer" where
  "decrypt_content ciphertext key =
     (case derive_iv key of
        Inl e \<Rightarrow> Inl e
      | Inr iv \<Rightarrow>
          let bytes = AES_decrypt ciphertext (derive_key key) iv
          in (case wordArrayToArrayBuffer bytes of
                Inl e \<Rightarrow> Inl e
              | Inr decrypted \<Rightarrow> if \<not> truthy decrypted then Inl CheckKey else Inr decrypted))"

definition decryptText :: "ArrayBuffer \<Rightarrow> jsstring \<Rightarrow> error + ArrayBuffer" where
  "decryptText buffer key =
     (case unwrap buffer of
        Inl e \<Rightarrow> Inl e
      | Inr ciphertext \<Rightarrow> decrypt_content ciphertext key)"

section \<open>The earlier \<open>Encrypt\<close> without marker (\<open>src/unnamed/part_000\<close>, lines 4-77)\<close>

definition legacy_encryptText :: "ArrayBuffer \<Rightarrow> jsstring \<Rightarrow> error + ArrayBuffer" where
  "legacy_encryptText buffer key =
     (case derive_iv key of
        Inl e \<Rightarrow> Inl (EncryptFailed e)
      | Inr iv \<Rightarrow>
          let encrypted = AES_encrypt (WordArray_create buffer) (derive_key key) iv
          in (case wordArrayToArrayBuffer encrypted of
                Inl e \<Rightarrow> Inl (EncryptFailed e)
              | Inr frame \<Rightarrow> Inr frame))"

section \<open>Auxiliary notions for the proofs\<close>

text \<open>The byte of a word list at a byte offset, as \<open>wordArrayToArrayBuffer\<close> reads it; the
  step that word-array construction and \<open>concat\<close> share; and word lists that hold exactly
  \<open>n\<close> bytes, with zero bytes behind them.\<close>

definition byte_at :: "int32 list \<Rightarrow> nat \<Rightarrow> byte" where
  "byte_at ws i = ucast (drop_bit (24 - (i mod 4) * 8) (aget ws (i div 4)) AND 0xff)"

definition or_byte :: "int32 list \<Rightarrow> nat \<Rightarrow> int32 \<Rightarrow> int32 list" where
  "or_byte ws n v = aset ws (n div 4) (aget ws (n div 4) OR push_bit (24 - (n mod 4) * 8) v)"

definition tight :: "int32 list \<Rightarrow> nat \<Rightarrow> bool" where
  "tight ws n = (length ws = (n + 3) div 4 \<and> (\<forall>i\<ge>n. byte_at ws i = 0))"

text \<open>Notions for the cipher: bytes inside 32-bit words, the entries of the mix tables as
  functions of a byte, the two column transforms, multiples in GF(2^8), the cipher state as
  four words, and the block transform on a state.\<close>

definition is_byte :: "int32 \<Rightarrow> bool" where
  "is_byte x = (take_bit 8 x = x)"

definition G0 :: "int32 \<Rightarrow> int32" where "G0 s = (let t = sub_mix_t s in push_bit 24 t OR drop_bit 8 t)"
definition G1 :: "int32 \<Rightarrow> int32" where "G1 s = (let t = sub_mix_t s in push_bit 16 t OR drop_bit 16 t)"
definition G2 :: "int32 \<Rightarrow> int32" where "G2 s = (let t = sub_mix_t s in push_bit 8 t OR drop_bit 24 t)"
definition G3 :: "int32 \<Rightarrow> int32" where "G3 s = sub_mix_t s"
definition H0 :: "int32 \<Rightarrow> int32" where "H0 x = (let t = inv_sub_mix_t x in push_bit 24 t OR drop_bit 8 t)"
definition H1 :: "int32 \<Rightarrow> int32" where "H1 x = (let t = inv_sub_mix_t x in push_bit 16 t OR drop_bit 16 t)"
definition H2 :: "int32 \<Rightarrow> int32" where "H2 x = (let t = inv_sub_mix_t x in push_bit 8 t OR drop_bit 24 t)"
definition H3 :: "int32 \<Rightarrow> int32" where "H3 x = inv_sub_mix_t x"

definition mcw :: "int32 \<Rightarrow> int32" where
  "mcw q = G0 (b3 q) XOR G1 (b2 q) XOR G2 (b1 q) XOR G3 (b0 q)"
definition imcw :: "int32 \<Rightarrow> int32" where
  "imcw w = H0 (b3 w) XOR H1 (b2 w) XOR H2 (b1 w) XOR H3 (b0 w)"

text \<open>GF(2^8) multiples of a byte, lane by lane.\<close>
definition m2 :: "int32 \<Rightarrow> int32" where "m2 x = push_bit 1 x XOR (if bit x 7 then 0x11b else 0)"
definition m4 :: "int32 \<Rightarrow> int32" where "m4 x = m2 (m2 x)"
definition m8 :: "int32 \<Rightarrow> int32" where "m8 x = m2 (m4 x)"
definition m3 :: "int32 \<Rightarrow> int32" where "m3 x = m2 x XOR x"
definition m9 :: "int32 \<Rightarrow> int32" where "m9 x = m8 x XOR x"
definition m11 :: "int32 \<Rightarrow> int32" where "m11 x = m8 x XOR m2 x XOR x"
definition m13 :: "int32 \<Rightarrow> int32" where "m13 x = m8 x XOR m4 x XOR x"
definition m14 :: "int32 \<Rightarrow> int32" where "m14 x = m8 x XOR m4 x XOR m2 x"
definition lanes :: "int32 \<Rightarrow> int32 \<Rightarrow> int32 \<Rightarrow> int32 \<Rightarrow> int32" where
  "lanes a b c e = push_bit 24 a XOR push_bit 16 b XOR push_bit 8 c XOR e"

definition Sb :: "int32 \<Rightarrow> int32" where "Sb v = aget SBOX (unat v)"

fun swp :: "state \<Rightarrow> state" where "swp (a, b, c, e) = (a, e, c, b)"
fun xor4 :: "state \<Rightarrow> state \<Rightarrow> state" where
  "xor4 (a, b, c, e) (a', b', c', e') = (a XOR a', b XOR b', c XOR c', e XOR e')"
fun map4 :: "(int32 \<Rightarrow> int32) \<Rightarrow> state \<Rightarrow> state" where
  "map4 f (a, b, c, e) = (f a, f b, f c, f e)"
fun subS :: "state \<Rightarrow> state" where
  "subS (s0, s1, s2, s3) =
     (sub_column SBOX s0 s1 s2 s3, sub_column SBOX s1 s2 s3 s0,
      sub_column SBOX s2 s3 s0 s1, sub_column SBOX s3 s0 s1 s2)"
definition kblock :: "int32 list \<Rightarrow> nat \<Rightarrow> state" where
  "kblock ks r = (aget ks (4 * r), aget ks (4 * r + 1), aget ks (4 * r + 2), aget ks (4 * r + 3))"
definition get4 :: "int32 list \<Rightarrow> nat \<Rightarrow> state" where
  "get4 M off = (aget M off, aget M (off + 1), aget M (off + 2), aget M (off + 3))"
fun set4 :: "int32 list \<Rightarrow> nat \<Rightarrow> state \<Rightarrow> int32 list" where
  "set4 M off (t0, t1, t2, t3) =
     aset (aset (aset (aset M off t0) (off + 1) t1) (off + 2) t2) (off + 3) t3"
definition crypt_state :: "int32 list \<Rightarrow> nat \<Rightarrow> mix_tables \<Rightarrow> int32 list \<Rightarrow> state \<Rightarrow> state" where
  "crypt_state ks N T S s =
     last_round S ks (4 * N) (foldl (\<lambda>s r. mix_round T ks (4 * r) s) (xor4 s (kblock ks 0)) [1..<N])"

fun list4 :: "state \<Rightarrow> int32 list" where "list4 (a, b, c, e) = [a, b, c, e]"
definition Eb :: "AES \<Rightarrow> state \<Rightarrow> state" where
  "Eb aes s = crypt_state (keySchedule aes) ((nRounds4 aes + 3) div 4)
                (SUB_MIX_0, SUB_MIX_1, SUB_MIX_2, SUB_MIX_3) SBOX s"
definition Db :: "AES \<Rightarrow> state \<Rightarrow> state" where
  "Db aes c = swp (crypt_state (invKeySchedule aes) ((nRounds4 aes + 3) div 4)
                (INV_SUB_MIX_0, INV_SUB_MIX_1, INV_SUB_MIX_2, INV_SUB_MIX_3) INV_SBOX (swp c))"

section \<open>Bytes and words\<close>

lemma ff_mask: "(0xff::int32) = mask 8" by (simp add: mask_eq_exp_minus_1)

lemma aget_aset: "aget (aset a i v) j = (if j = i then v else aget a j)"
  by (auto simp: aget_def aset_def nth_append nth_list_update)

lemma length_aset: "length (aset a i v) = max (length a) (Suc i)"
  by (auto simp: aset_def)

lemma lane_or_push:
  assumes "k < 4" "j < 4"
  shows "(ucast (drop_bit (24 - k * 8) (w OR push_bit (24 - j * 8) (ucast (b::byte))) AND (0xff::int32)) :: byte)
           = ucast (drop_bit (24 - k * 8) w AND 0xff) OR (if k = j then b else 0)"
proof -
  have kj: "k \<in> {0, 1, 2, 3}" "j \<in> {0, 1, 2, 3}" using assms by auto
  show ?thesis
    unfolding ff_mask
    by (rule bit_word_eqI) (use kj in \<open>auto simp: bit_simps dest: bit_imp_le_length\<close>)
qed

lemma byte_at_or_byte:
  "byte_at (or_byte ws n (ucast b)) i = (if i = n then byte_at ws i OR b else byte_at ws i)"
proof (cases "i div 4 = n div 4")
  case True
  have e: "(i mod 4 = n mod 4) = (i = n)" using True by (metis div_mult_mod_eq)
  have "byte_at (or_byte ws n (ucast b)) i
          = ucast (drop_bit (24 - (i mod 4) * 8)
              (aget ws (n div 4) OR push_bit (24 - (n mod 4) * 8) (ucast b)) AND 0xff)"
    using True by (simp only: byte_at_def or_byte_def aget_aset refl if_True)
  also have "\<dots> = ucast (drop_bit (24 - (i mod 4) * 8) (aget ws (n div 4)) AND 0xff)
                      OR (if i mod 4 = n mod 4 then b else 0)"
    by (rule lane_or_push) simp_all
  finally show ?thesis using True e by (simp add: byte_at_def)
next
  case False
  then show ?thesis by (auto simp: byte_at_def or_byte_def aget_aset)
qed

lemma byte_at_beyond: "4 * length ws \<le> i \<Longrightarrow> byte_at ws i = 0"
  by (simp add: byte_at_def aget_def)

lemma tight_or_byte:
  assumes "tight ws n"
  shows "tight (or_byte ws n (ucast b)) (Suc n)"
    and "byte_at (or_byte ws n (ucast b)) i = (if i = n then b else byte_at ws i)"
proof -
  have z: "byte_at ws n = 0" using assms by (simp add: tight_def)
  show b: "byte_at (or_byte ws n (ucast b)) i = (if i = n then b else byte_at ws i)"
    by (simp add: byte_at_or_byte z)
  have l: "length ws = (n + 3) div 4" using assms by (simp add: tight_def)
  have "length (or_byte ws n (ucast b)) = (Suc n + 3) div 4"
    unfolding or_byte_def length_aset l by (simp add: max_def) presburger
  moreover have "\<forall>i\<ge>Suc n. byte_at (or_byte ws n (ucast b)) i = 0"
    using assms by (simp add: byte_at_or_byte tight_def)
  ultimately show "tight (or_byte ws n (ucast b)) (Suc n)" by (simp add: tight_def)
qed

lemma create_loop:
  "n \<le> length bs \<Longrightarrow>
   tight (foldl (\<lambda>ws i. or_byte ws i (ucast (bs ! i))) [] [0..<n]) n \<and>
   (\<forall>i<n. byte_at (foldl (\<lambda>ws i. or_byte ws i (ucast (bs ! i))) [] [0..<n]) i = bs ! i)"
proof (induction n)
  case 0
  show ?case by (simp add: tight_def byte_at_beyond)
next
  case (Suc n)
  then have IH: "tight (foldl (\<lambda>ws i. or_byte ws i (ucast (bs ! i))) [] [0..<n]) n"
    "\<forall>i<n. byte_at (foldl (\<lambda>ws i. or_byte ws i (ucast (bs ! i))) [] [0..<n]) i = bs ! i"
    by simp_all
  show ?case
    using tight_or_byte [OF IH(1)] IH(2) by (auto simp: less_Suc_eq)
qed

lemma words_create:
  "words (WordArray_create bs) = foldl (\<lambda>ws i. or_byte ws i (ucast (bs ! i))) [] [0..<length bs]"
  by (simp add: WordArray_create_def or_byte_def)

lemma create_props:
  "tight (words (WordArray_create bs)) (length bs)"
  "i < length bs \<Longrightarrow> byte_at (words (WordArray_create bs)) i = bs ! i"
  "sigBytes (WordArray_create bs) = int (length bs)"
  using create_loop [of "length bs" bs] by (simp_all add: words_create) (simp add: WordArray_create_def)

lemma wordArrayToArrayBuffer_byte_at:
  "wordArrayToArrayBuffer wa =
     (if sigBytes wa < 0 then Inl RangeError
      else Inr (map (byte_at (words wa)) [0..<nat (sigBytes wa)]))"
  by (simp add: wordArrayToArrayBuffer_def byte_at_def)

lemma aget_drop1: "aget (drop (Suc 0) ws) j = aget ws (Suc j)"
  by (cases ws) (simp_all add: aget_def)

lemma byte_at_drop1: "byte_at (drop (Suc 0) ws) i = byte_at ws (i + 4)"
proof -
  have "(i + 4) div 4 = Suc (i div 4)" "(i + 4) mod 4 = i mod 4" by simp_all
  then show ?thesis by (simp only: byte_at_def aget_drop1)
qed

lemma bit_lane:
  "m < 8 \<Longrightarrow> bit (ucast (drop_bit s w AND 0xff) :: byte) m = bit (w::int32) (s + m)"
  unfolding ff_mask by (auto simp: bit_simps)

lemma word_by_lanes:
  fixes w w' :: int32
  assumes "\<And>k. k < 4 \<Longrightarrow> (ucast (drop_bit (24 - k * 8) w AND 0xff) :: byte) = ucast (drop_bit (24 - k * 8) w' AND 0xff)"
  shows "w = w'"
proof (rule bit_word_eqI)
  fix n assume n: "n < LENGTH(32)"
  define k where "k = 3 - n div 8"
  have k: "k < 4" unfolding k_def by simp
  have e: "n = (24 - k * 8) + n mod 8" unfolding k_def using n by simp presburger
  have m: "n mod 8 < 8" by simp
  have "bit w ((24 - k * 8) + n mod 8) = bit w' ((24 - k * 8) + n mod 8)"
    unfolding bit_lane [OF m, symmetric] assms [OF k] ..
  then show "bit w n = bit w' n" using e by simp
qed

lemma word0_by_bytes:
  "(aget ws 0 = aget ws' 0) = (byte_at ws 0 = byte_at ws' 0 \<and> byte_at ws 1 = byte_at ws' 1
      \<and> byte_at ws 2 = byte_at ws' 2 \<and> byte_at ws 3 = byte_at ws' 3)"
proof
  assume "aget ws 0 = aget ws' 0"
  then show "byte_at ws 0 = byte_at ws' 0 \<and> byte_at ws 1 = byte_at ws' 1
      \<and> byte_at ws 2 = byte_at ws' 2 \<and> byte_at ws 3 = byte_at ws' 3"
    by (simp add: byte_at_def)
next
  assume a: "byte_at ws 0 = byte_at ws' 0 \<and> byte_at ws 1 = byte_at ws' 1
      \<and> byte_at ws 2 = byte_at ws' 2 \<and> byte_at ws 3 = byte_at ws' 3"
  show "aget ws 0 = aget ws' 0"
  proof (rule word_by_lanes)
    fix k :: nat assume "k < 4"
    then have "k = 0 \<or> k = 1 \<or> k = 2 \<or> k = 3" by auto
    then show "(ucast (drop_bit (24 - k * 8) (aget ws 0) AND 0xff) :: byte)
                 = ucast (drop_bit (24 - k * 8) (aget ws' 0) AND 0xff)"
      using a by (auto simp: byte_at_def)
  qed
qed

lemma magic_bytes:
  "byte_at (words MAGIC_WORDS) 0 = 0x00" "byte_at (words MAGIC_WORDS) 1 = 0x02"
  "byte_at (words MAGIC_WORDS) 2 = 0x73" "byte_at (words MAGIC_WORDS) 3 = 0xDB"
  by (simp_all add: MAGIC_WORDS_def byte_at_def aget_def)

lemma take4_eq:
  "4 \<le> length bs \<Longrightarrow> (take 4 bs = [a, b, c, e]) = (bs ! 0 = a \<and> bs ! 1 = b \<and> bs ! 2 = c \<and> bs ! 3 = e)"
proof -
  assume l: "4 \<le> length bs"
  obtain x0 r0 where 0: "bs = x0 # r0" using l by (cases bs) auto
  obtain x1 r1 where 1: "r0 = x1 # r1" using l 0 by (cases r0) auto
  obtain x2 r2 where 2: "r1 = x2 # r2" using l 0 1 by (cases r1) auto
  obtain x3 r3 where 3: "r2 = x3 # r3" using l 0 1 2 by (cases r2) auto
  show ?thesis unfolding 0 1 2 3 by (auto simp: numeral_2_eq_2 numeral_3_eq_3)
qed

lemma magic_test:
  assumes "4 \<le> length buffer"
  shows "(aget (words (WordArray_create buffer)) 0 = aget (words MAGIC_WORDS) 0)
           = (take 4 buffer = [0x00, 0x02, 0x73, 0xDB])"
proof -
  have l: "0 < length buffer" "1 < length buffer" "2 < length buffer" "3 < length buffer"
    using assms by auto
  note c = l [THEN create_props(2)]
  show ?thesis
    unfolding word0_by_bytes c magic_bytes take4_eq [OF assms] ..
qed

lemma unwrap_short: "length buffer < 4 \<Longrightarrow> unwrap buffer = Inl InvalidCiphertext"
  by (simp add: unwrap_def Let_def create_props)

lemma unwrap_bad_marker:
  "4 \<le> length buffer \<Longrightarrow> take 4 buffer \<noteq> [0x00, 0x02, 0x73, 0xDB] \<Longrightarrow> unwrap buffer = Inl InvalidCiphertext"
  by (simp add: unwrap_def Let_def create_props magic_test)

lemma unwrap_ok:
  "4 \<le> length buffer \<Longrightarrow> take 4 buffer = [0x00, 0x02, 0x73, 0xDB] \<Longrightarrow>
   unwrap buffer = Inr \<lparr> words = drop 1 (words (WordArray_create buffer)), sigBytes = int (length buffer) - 4 \<rparr>"
  by (simp add: unwrap_def Let_def create_props magic_test) (simp add: MAGIC_WORDS_def)

lemma unwrapped_bytes:
  assumes "4 \<le> length buffer"
  shows "wordArrayToArrayBuffer \<lparr> words = drop (Suc 0) (words (WordArray_create buffer)), sigBytes = int (length buffer) - 4 \<rparr>
           = Inr (drop 4 buffer)"
proof -
  have n: "nat (int (length buffer) - 4) = length buffer - 4" by simp
  have "map (byte_at (drop (Suc 0) (words (WordArray_create buffer)))) [0..<length buffer - 4] = drop 4 buffer"
    using assms by (intro nth_equalityI) (simp_all add: byte_at_drop1 create_props add.commute)
  then show ?thesis
    using assms by (simp add: wordArrayToArrayBuffer_byte_at n)
qed

section \<open>Clamping and concatenation\<close>

lemma tight_length: "tight ws n \<Longrightarrow> length ws = (n + 3) div 4"
  by (simp add: tight_def)

lemma tight_zero: "tight ws n \<Longrightarrow> n \<le> i \<Longrightarrow> byte_at ws i = 0"
  by (simp add: tight_def)

lemma words_eqI:
  assumes "length ws = length ws'" and "\<And>i. i < 4 * length ws \<Longrightarrow> byte_at ws i = byte_at ws' i"
  shows "ws = ws'"
proof (rule nth_equalityI)
  show "length ws = length ws'" by fact
  fix j assume j: "j < length ws"
  have "aget ws j = aget ws' j"
  proof (rule word_by_lanes)
    fix k :: nat assume k: "k < 4"
    have "byte_at ws (4 * j + k) = byte_at ws' (4 * j + k)" using j k by (intro assms(2)) simp
    moreover have "(4 * j + k) div 4 = j" "(4 * j + k) mod 4 = k" using k by simp_all
    ultimately show "(ucast (drop_bit (24 - k * 8) (aget ws j) AND 0xff) :: byte)
                       = ucast (drop_bit (24 - k * 8) (aget ws' j) AND 0xff)"
      by (simp add: byte_at_def)
  qed
  then show "ws ! j = ws' ! j" using j assms(1) by (simp add: aget_def)
qed

lemma tight_eqI:
  assumes "tight ws n" "tight ws' n" and "\<And>i. i < n \<Longrightarrow> byte_at ws i = byte_at ws' i"
  shows "ws = ws'"
proof (rule words_eqI)
  show "length ws = length ws'" using assms(1,2) by (simp add: tight_def)
  fix i show "byte_at ws i = byte_at ws' i"
    using assms by (cases "i < n") (simp_all add: tight_def)
qed

lemma lane_and_mask:
  assumes "k < 4" "j < 4"
  shows "(ucast (drop_bit (24 - k * 8) (w AND push_bit ((32 - j * 8) mod 32) (0xffffffff::int32)) AND 0xff) :: byte)
           = (if j = 0 \<or> k < j then ucast (drop_bit (24 - k * 8) w AND 0xff) else 0)"
proof -
  have kj: "k \<in> {0, 1, 2, 3}" "j \<in> {0, 1, 2, 3}" using assms by auto
  have m: "(0xffffffff::int32) = mask 32" by (simp add: mask_eq_exp_minus_1)
  show ?thesis
    unfolding ff_mask m
    by (rule bit_word_eqI) (use kj in \<open>auto simp: bit_simps\<close>)
qed

lemma clamp_tight:
  assumes "tight (words wa) n" "sigBytes wa = int n"
  shows "clamp wa = wa"
proof -
  define v where "v = aget (words wa) (n div 4) AND push_bit ((32 - (n mod 4) * 8) mod 32) 0xffffffff"
  have l: "length (words wa) = (n + 3) div 4" using assms(1) by (rule tight_length)
  have "take ((n + 3) div 4) (aset (words wa) (n div 4) v) = words wa"
  proof (cases "n mod 4 = 0")
    case True
    then have "n div 4 = length (words wa)" unfolding l by presburger
    then show ?thesis by (simp add: aset_def l [symmetric])
  next
    case False
    then have i: "n div 4 < length (words wa)" unfolding l by presburger
    have "v = aget (words wa) (n div 4)"
    proof (rule word_by_lanes)
      fix k :: nat assume k: "k < 4"
      have e: "(4 * (n div 4) + k) div 4 = n div 4" "(4 * (n div 4) + k) mod 4 = k" using k by simp_all
      have z: "\<not> k < n mod 4 \<Longrightarrow> byte_at (words wa) (4 * (n div 4) + k) = 0"
        by (rule tight_zero [OF assms(1)]) presburger
      have "(ucast (drop_bit (24 - k * 8) v AND 0xff) :: byte)
              = (if n mod 4 = 0 \<or> k < n mod 4
                 then ucast (drop_bit (24 - k * 8) (aget (words wa) (n div 4)) AND 0xff) else 0)"
        unfolding v_def by (rule lane_and_mask) (use k in simp_all)
      also have "\<dots> = ucast (drop_bit (24 - k * 8) (aget (words wa) (n div 4)) AND 0xff)"
        using z k by (auto simp: byte_at_def e)
      finally show "(ucast (drop_bit (24 - k * 8) v AND 0xff) :: byte)
              = ucast (drop_bit (24 - k * 8) (aget (words wa) (n div 4)) AND 0xff)" .
    qed
    then show ?thesis using i by (simp add: aset_def aget_def l [symmetric])
  qed
  moreover have "(n + 3) div 4 - length (aset (words wa) (n div 4) v) = 0"
    by (simp add: length_aset l)
  ultimately show ?thesis
    using assms(2) by (simp add: clamp_def Let_def v_def [symmetric])
qed

lemma thatByte_eq:
  "drop_bit (24 - (i mod 4) * 8) (aget wb (i div 4)) AND 0xff = (ucast (byte_at wb i) :: int32)"
  unfolding byte_at_def ff_mask
  by (rule bit_word_eqI) (auto simp: bit_simps)

lemma concat_bytes_or_byte:
  "concat_bytes wa na wb nb = foldl (\<lambda>ws i. or_byte ws (na + i) (ucast (byte_at wb i))) wa [0..<nb]"
  by (simp add: concat_bytes_def Let_def or_byte_def thatByte_eq)

lemma concat_bytes_loop:
  assumes "tight wa na"
  shows "tight (foldl (\<lambda>ws i. or_byte ws (na + i) (ucast (byte_at wb i))) wa [0..<j]) (na + j) \<and>
         (\<forall>i. byte_at (foldl (\<lambda>ws i. or_byte ws (na + i) (ucast (byte_at wb i))) wa [0..<j]) i
               = (if i < na then byte_at wa i else if i < na + j then byte_at wb (i - na) else 0))"
proof (induction j)
  case 0
  show ?case using assms by (simp add: tight_zero)
next
  case (Suc j)
  let ?r = "foldl (\<lambda>ws i. or_byte ws (na + i) (ucast (byte_at wb i))) wa [0..<j]"
  have t: "tight ?r (na + j)" and v: "\<And>i. byte_at ?r i
               = (if i < na then byte_at wa i else if i < na + j then byte_at wb (i - na) else 0)"
    using Suc.IH by simp_all
  have "tight (or_byte ?r (na + j) (ucast (byte_at wb j))) (Suc (na + j))"
    using t by (rule tight_or_byte(1))
  moreover have "byte_at (or_byte ?r (na + j) (ucast (byte_at wb j))) i
      = (if i < na then byte_at wa i else if i < na + Suc j then byte_at wb (i - na) else 0)" for i
    unfolding tight_or_byte(2) [OF t] v by (auto simp: less_Suc_eq)
  ultimately show ?case by simp
qed

lemma concat_words_eq:
  assumes "na = 4 * length wa"
  shows "concat_words wa na wb nb = wa @ map (aget wb) [0..<(nb + 3) div 4]"
proof -
  have "foldl (\<lambda>ws k. aset ws ((na + 4 * k) div 4) (aget wb k)) wa [0..<c]
          = wa @ map (aget wb) [0..<c]" for c
  proof (induction c)
    case 0 show ?case by simp
  next
    case (Suc c)
    have "(na + 4 * c) div 4 = length (wa @ map (aget wb) [0..<c])" using assms by simp
    then show ?case using Suc by (simp add: aset_def)
  qed
  then show ?thesis by (simp add: concat_words_def)
qed

lemma map_aget_id: "map (aget ws) [0..<length ws] = ws"
  by (rule nth_equalityI) (simp_all add: aget_def)

lemma byte_at_append:
  "byte_at (wa @ wb) i = (if i < 4 * length wa then byte_at wa i else byte_at wb (i - 4 * length wa))"
proof (cases "i < 4 * length wa")
  case True
  then have "i div 4 < length wa" by simp
  with True show ?thesis by (simp add: byte_at_def aget_def nth_append)
next
  case False
  then have d: "(i - 4 * length wa) div 4 = i div 4 - length wa" "(i - 4 * length wa) mod 4 = i mod 4"
    "\<not> i div 4 < length wa"
    by presburger+
  show ?thesis using False unfolding byte_at_def d by (auto simp: aget_def nth_append)
qed

lemma concat_props:
  assumes a: "tight (words a) na" "sigBytes a = int na"
    and b: "sigBytes b = int nb" and bt: "na mod 4 = 0 \<Longrightarrow> tight (words b) nb"
  shows "tight (words (WordArray_concat a b)) (na + nb)"
    and "sigBytes (WordArray_concat a b) = int (na + nb)"
    and "byte_at (words (WordArray_concat a b)) i
           = (if i < na then byte_at (words a) i
              else if i < na + nb then byte_at (words b) (i - na) else 0)"
proof -
  have c: "clamp a = a" using a by (rule clamp_tight)
  show "sigBytes (WordArray_concat a b) = int (na + nb)"
    by (simp add: WordArray_concat_def Let_def a b)
  show "tight (words (WordArray_concat a b)) (na + nb)"
   and "byte_at (words (WordArray_concat a b)) i
           = (if i < na then byte_at (words a) i
              else if i < na + nb then byte_at (words b) (i - na) else 0)"
  proof -
    consider (bytes) "na mod 4 \<noteq> 0" | (words) "na mod 4 = 0" by blast
    then have "tight (words (WordArray_concat a b)) (na + nb) \<and>
      byte_at (words (WordArray_concat a b)) i
           = (if i < na then byte_at (words a) i
              else if i < na + nb then byte_at (words b) (i - na) else 0)"
    proof cases
      case bytes
      have "words (WordArray_concat a b)
              = foldl (\<lambda>ws i. or_byte ws (na + i) (ucast (byte_at (words b) i))) (words a) [0..<nb]"
        using bytes by (simp add: WordArray_concat_def Let_def a b c concat_bytes_or_byte)
      then show ?thesis using concat_bytes_loop [OF a(1), of "words b" nb] by simp
    next
      case words
      have la: "na = 4 * length (words a)" using words tight_length [OF a(1)] by presburger
      have tb: "tight (words b) nb" using words by (rule bt)
      have w: "words (WordArray_concat a b) = words a @ words b"
        using words
        by (simp add: WordArray_concat_def Let_def a b c concat_words_eq [OF la]
              tight_length [OF tb, symmetric] map_aget_id)
      have "length (words a @ words b) = (na + nb + 3) div 4"
        using tight_length [OF a(1)] tight_length [OF tb] words by simp presburger
      moreover have "byte_at (words a @ words b) i
           = (if i < na then byte_at (words a) i
              else if i < na + nb then byte_at (words b) (i - na) else 0)" for i
        unfolding byte_at_append la [symmetric]
        using tight_zero [OF tb, of "i - na"] by auto
      ultimately show ?thesis unfolding w by (simp add: tight_def)
    qed
    then show "tight (words (WordArray_concat a b)) (na + nb)"
      and "byte_at (words (WordArray_concat a b)) i
           = (if i < na then byte_at (words a) i
              else if i < na + nb then byte_at (words b) (i - na) else 0)" by simp_all
  qed
qed

section \<open>The block cipher is invertible\<close>

lemmas xor_ac = xor.assoc xor.commute xor.left_commute

lemma b0_alt: "b0 t = take_bit 8 t" by (simp add: b0_def ff_mask take_bit_eq_mask)
lemma b1_alt: "b1 t = take_bit 8 (drop_bit 8 t)" by (simp add: b1_def ff_mask take_bit_eq_mask)
lemma b2_alt: "b2 t = take_bit 8 (drop_bit 16 t)" by (simp add: b2_def ff_mask take_bit_eq_mask)
lemma b3_alt: "b3 t = take_bit 8 (drop_bit 24 t)"
  unfolding b3_def by (rule bit_word_eqI) (auto simp: bit_simps dest: bit_imp_le_length)

lemma is_byte_b [simp]: "is_byte (b0 t)" "is_byte (b1 t)" "is_byte (b2 t)" "is_byte (b3 t)"
  by (simp_all add: is_byte_def b0_alt b1_alt b2_alt b3_alt)

lemma is_byte_bit: "is_byte x \<Longrightarrow> bit x n \<Longrightarrow> n < 8"
  unfolding is_byte_def by (metis bit_take_bit_iff)

lemma is_byte_unat: "is_byte x \<Longrightarrow> unat x < 256"
proof -
  assume "is_byte x"
  then have "unat x = take_bit 8 (unat x)"
    by (metis is_byte_def unsigned_take_bit_eq)
  also have "\<dots> < 2 ^ 8" by (rule take_bit_nat_less_exp)
  finally show ?thesis by simp
qed

lemma is_byte_of_nat: "n < 256 \<Longrightarrow> is_byte (of_nat n)"
proof -
  assume "n < 256"
  then have "take_bit 8 n = n" by (simp add: take_bit_nat_eq_self)
  then show ?thesis unfolding is_byte_def by (metis of_nat_take_bit)
qed

lemma byte_cases:
  assumes "is_byte x" and "list_all (\<lambda>n. P (of_nat n :: int32)) [0..<256]"
  shows "P x"
proof -
  have "unat x < 256" using assms(1) by (rule is_byte_unat)
  then have m: "unat x \<in> set [0..<256]" by simp
  have "\<forall>n\<in>set [0..<256]. P (of_nat n)" using assms(2) by (simp only: list_all_iff)
  from this m have "P (of_nat (unat x))" by (rule bspec)
  then show ?thesis by simp
qed

lemma is_byte_xor: "is_byte x \<Longrightarrow> is_byte y \<Longrightarrow> is_byte (x XOR y)"
  by (simp add: is_byte_def)

lemma dd_eq: "is_byte x \<Longrightarrow> dd x = (if x < 0x80 then push_bit 1 x else push_bit 1 x XOR 0x11b)"
proof -
  assume b: "is_byte x"
  then have l: "unat x < 256" by (rule is_byte_unat)
  have "(unat x < 128) = (x < 0x80)" by (simp add: word_less_nat_alt)
  with l show ?thesis by (simp add: dd_def d_def aget_def)
qed

lemma dd_m2: "is_byte x \<Longrightarrow> dd x = m2 x"
  by (erule byte_cases [where P = "\<lambda>x. dd x = m2 x"])
     (simp add: upt_rec dd_eq m2_def is_byte_def)

lemma is_byte_m2: "is_byte x \<Longrightarrow> is_byte (m2 x)"
  by (erule byte_cases [where P = "\<lambda>x. is_byte (m2 x)"])
     (simp add: upt_rec m2_def is_byte_def)

lemma m2_xor: "m2 (x XOR y) = m2 x XOR m2 y"
  by (auto simp: m2_def bit_simps xor.assoc xor.left_commute)


lemma rot_or_xor:
  "push_bit 24 t OR drop_bit 8 t = push_bit 24 t XOR drop_bit 8 (t::int32)"
  "push_bit 16 t OR drop_bit 16 t = push_bit 16 t XOR drop_bit 16 (t::int32)"
  "push_bit 8 t OR drop_bit 24 t = push_bit 8 t XOR drop_bit 24 (t::int32)"
  by (rule bit_word_eqI; auto simp: bit_simps dest: bit_imp_le_length)+

lemma m_xor:
  "m4 (x XOR y) = m4 x XOR m4 y" "m8 (x XOR y) = m8 x XOR m8 y"
  "m9 (x XOR y) = m9 x XOR m9 y" "m11 (x XOR y) = m11 x XOR m11 y"
  "m13 (x XOR y) = m13 x XOR m13 y" "m14 (x XOR y) = m14 x XOR m14 y"
  by (simp_all add: m4_def m8_def m9_def m11_def m13_def m14_def m2_xor xor.assoc xor.left_commute)

lemma lanes_xor:
  "lanes a b c e XOR lanes a' b' c' e' = lanes (a XOR a') (b XOR b') (c XOR c') (e XOR e')"
  by (simp add: lanes_def xor.assoc xor.left_commute)


lemma b_xor:
  "b0 (x XOR y) = b0 x XOR b0 y" "b1 (x XOR y) = b1 x XOR b1 y"
  "b2 (x XOR y) = b2 x XOR b2 y" "b3 (x XOR y) = b3 x XOR b3 y"
  by (simp_all add: b0_alt b1_alt b2_alt b3_alt)

lemma lanes_or: 
  assumes "is_byte a" "is_byte b" "is_byte c" "is_byte e"
  shows "lanes a b c e = push_bit 24 a OR push_bit 16 b OR push_bit 8 c OR e"
  unfolding lanes_def
  by (rule bit_word_eqI) (use assms in \<open>auto simp: bit_simps dest: is_byte_bit\<close>)

lemma mult_lanes:
  assumes "is_byte t"
  shows "t * 0x1010101 = lanes t t t t" "t * 0x10001 = lanes 0 t 0 t"
        "t * 0x101 = lanes 0 0 t t" "t * 0x1010100 = lanes t t t 0"
proof -
  have d1: "push_bit 8 t AND t = 0"
    by (rule bit_word_eqI) (use assms in \<open>auto simp: bit_simps dest: is_byte_bit\<close>)
  have d2: "push_bit 16 t AND (push_bit 8 t OR t) = 0"
    by (rule bit_word_eqI) (use assms in \<open>auto simp: bit_simps dest: is_byte_bit\<close>)
  have d3: "push_bit 24 t AND (push_bit 16 t OR (push_bit 8 t OR t)) = 0"
    by (rule bit_word_eqI) (use assms in \<open>auto simp: bit_simps dest: is_byte_bit\<close>)
  have d4: "push_bit 16 t AND t = 0"
    by (rule bit_word_eqI) (use assms in \<open>auto simp: bit_simps dest: is_byte_bit\<close>)
  have d5: "push_bit 16 t AND push_bit 8 t = 0"
    by (rule bit_word_eqI) (use assms in \<open>auto simp: bit_simps dest: is_byte_bit\<close>)
  have d6: "push_bit 24 t AND (push_bit 16 t OR push_bit 8 t) = 0"
    by (rule bit_word_eqI) (use assms in \<open>auto simp: bit_simps dest: is_byte_bit\<close>)
  have x: "lanes a b c e = push_bit 24 a OR push_bit 16 b OR push_bit 8 c OR e" 
    if "is_byte a" "is_byte b" "is_byte c" "is_byte e" for a b c e
    using that by (rule lanes_or)
  have z: "is_byte 0" by (simp add: is_byte_def)
  have "t * 0x1010101 = push_bit 24 t + (push_bit 16 t + (push_bit 8 t + t))"
    by (simp add: push_bit_eq_mult algebra_simps)
  also have "\<dots> = push_bit 24 t OR (push_bit 16 t OR (push_bit 8 t OR t))"
    by (simp add: disjunctive_add_eq_or d1 d2 d3)
  finally show "t * 0x1010101 = lanes t t t t" by (simp add: x assms or.assoc)
  have "t * 0x10001 = push_bit 16 t + t"
    by (simp add: push_bit_eq_mult algebra_simps)
  also have "\<dots> = push_bit 16 t OR t"
    by (simp add: disjunctive_add_eq_or d4)
  finally show "t * 0x10001 = lanes 0 t 0 t" by (simp add: x assms z)
  have "t * 0x101 = push_bit 8 t + t"
    by (simp add: push_bit_eq_mult algebra_simps)
  also have "\<dots> = push_bit 8 t OR t"
    by (simp add: disjunctive_add_eq_or d1)
  finally show "t * 0x101 = lanes 0 0 t t" by (simp add: x assms z)
  have "t * 0x1010100 = push_bit 24 t + (push_bit 16 t + push_bit 8 t)"
    by (simp add: push_bit_eq_mult algebra_simps)
  also have "\<dots> = push_bit 24 t OR (push_bit 16 t OR push_bit 8 t)"
    by (simp add: disjunctive_add_eq_or d5 d6)
  finally show "t * 0x1010100 = lanes t t t 0" by (simp add: x assms z or.assoc)
qed

lemma is_byte_m: 
  assumes "is_byte x" 
  shows "is_byte (m4 x)" "is_byte (m8 x)" "is_byte (m3 x)" "is_byte (m9 x)" "is_byte (m11 x)" "is_byte (m13 x)" "is_byte (m14 x)"
  using assms by (simp_all add: m4_def m8_def m3_def m9_def m11_def m13_def m14_def is_byte_m2 is_byte_xor)

lemma sub_mix_t_lanes: "is_byte s \<Longrightarrow> sub_mix_t s = lanes s s (m3 s) (m2 s)"
  by (simp add: sub_mix_t_def dd_m2 mult_lanes is_byte_m2 lanes_xor m3_def)

lemma inv_sub_mix_t_lanes:
  "is_byte x \<Longrightarrow> inv_sub_mix_t x = lanes (m9 x) (m13 x) (m11 x) (m14 x)"
  by (simp add: inv_sub_mix_t_def dd_m2 mult_lanes is_byte_m2 lanes_xor m4_def m8_def m9_def m11_def m13_def m14_def Let_def xor_ac)


lemma rot_lanes:
  assumes "is_byte a" "is_byte b" "is_byte c" "is_byte e"
  shows "push_bit 24 (lanes a b c e) OR drop_bit 8 (lanes a b c e) = lanes e a b c"
    and "push_bit 16 (lanes a b c e) OR drop_bit 16 (lanes a b c e) = lanes c e a b"
    and "push_bit 8 (lanes a b c e) OR drop_bit 24 (lanes a b c e) = lanes b c e a"
proof -
  note L = lanes_or [OF assms] lanes_or [OF assms(4) assms(1) assms(2) assms(3)]
    lanes_or [OF assms(3) assms(4) assms(1) assms(2)] lanes_or [OF assms(2) assms(3) assms(4) assms(1)]
  have A: "\<And>n. bit a n \<Longrightarrow> n < 8" "\<And>n. bit b n \<Longrightarrow> n < 8" "\<And>n. bit c n \<Longrightarrow> n < 8"
    "\<And>n. bit e n \<Longrightarrow> n < 8"
    using assms by (auto dest: is_byte_bit)
  show "push_bit 24 (lanes a b c e) OR drop_bit 8 (lanes a b c e) = lanes e a b c"
    unfolding L by (rule bit_word_eqI) (auto simp: bit_simps dest: A)
  show "push_bit 16 (lanes a b c e) OR drop_bit 16 (lanes a b c e) = lanes c e a b"
    unfolding L by (rule bit_word_eqI) (auto simp: bit_simps dest: A)
  show "push_bit 8 (lanes a b c e) OR drop_bit 24 (lanes a b c e) = lanes b c e a"
    unfolding L by (rule bit_word_eqI) (auto simp: bit_simps dest: A)
qed

lemma b_lanes:
  assumes "is_byte a" "is_byte b" "is_byte c" "is_byte e"
  shows "b3 (lanes a b c e) = a" "b2 (lanes a b c e) = b" "b1 (lanes a b c e) = c"
        "b0 (lanes a b c e) = e"
proof -
  have A: "\<And>n. bit a n \<Longrightarrow> n < 8" "\<And>n. bit b n \<Longrightarrow> n < 8" "\<And>n. bit c n \<Longrightarrow> n < 8"
    "\<And>n. bit e n \<Longrightarrow> n < 8"
    using assms by (auto dest: is_byte_bit)
  show "b3 (lanes a b c e) = a"
    unfolding lanes_or [OF assms] b3_alt by (rule bit_word_eqI) (auto simp: bit_simps dest: A)
  show "b2 (lanes a b c e) = b"
    unfolding lanes_or [OF assms] b2_alt by (rule bit_word_eqI) (auto simp: bit_simps dest: A)
  show "b1 (lanes a b c e) = c"
    unfolding lanes_or [OF assms] b1_alt by (rule bit_word_eqI) (auto simp: bit_simps dest: A)
  show "b0 (lanes a b c e) = e"
    unfolding lanes_or [OF assms] b0_alt by (rule bit_word_eqI) (auto simp: bit_simps dest: A)
qed

lemma lanes_b: "lanes (b3 w) (b2 w) (b1 w) (b0 w) = w"
proof -
  have "push_bit 24 (b3 w) OR push_bit 16 (b2 w) OR push_bit 8 (b1 w) OR b0 w = w"
  proof (rule bit_word_eqI)
    fix n assume "n < LENGTH(32)"
    then consider "n < 8" | "8 \<le> n" "n < 16" | "16 \<le> n" "n < 24" | "24 \<le> n" "n < 32"
      by force
    then show "bit (push_bit 24 (b3 w) OR push_bit 16 (b2 w) OR push_bit 8 (b1 w) OR b0 w) n = bit w n"
      unfolding b0_alt b1_alt b2_alt b3_alt by cases (auto simp: bit_simps)
  qed
  then show ?thesis by (simp add: lanes_or)
qed

lemma G_lanes:
  assumes "is_byte s"
  shows "G0 s = lanes (m2 s) s s (m3 s)" "G1 s = lanes (m3 s) (m2 s) s s"
        "G2 s = lanes s (m3 s) (m2 s) s" "G3 s = lanes s s (m3 s) (m2 s)"
  using assms
  by (simp_all add: G0_def G1_def G2_def G3_def Let_def sub_mix_t_lanes rot_lanes is_byte_m is_byte_m2)

lemma H_lanes:
  assumes "is_byte x"
  shows "H0 x = lanes (m14 x) (m9 x) (m13 x) (m11 x)" "H1 x = lanes (m11 x) (m14 x) (m9 x) (m13 x)"
        "H2 x = lanes (m13 x) (m11 x) (m14 x) (m9 x)" "H3 x = lanes (m9 x) (m13 x) (m11 x) (m14 x)"
  using assms
  by (simp_all add: H0_def H1_def H2_def H3_def Let_def inv_sub_mix_t_lanes rot_lanes is_byte_m is_byte_m2)

lemma mcw_lanes:
  "mcw q = lanes (m2 (b3 q) XOR m3 (b2 q) XOR b1 q XOR b0 q)
                 (b3 q XOR m2 (b2 q) XOR m3 (b1 q) XOR b0 q)
                 (b3 q XOR b2 q XOR m2 (b1 q) XOR m3 (b0 q))
                 (m3 (b3 q) XOR b2 q XOR b1 q XOR m2 (b0 q))"
  by (simp add: mcw_def G_lanes lanes_xor)

lemma imcw_lanes:
  "imcw q = lanes (m14 (b3 q) XOR m11 (b2 q) XOR m13 (b1 q) XOR m9 (b0 q))
                  (m9 (b3 q) XOR m14 (b2 q) XOR m11 (b1 q) XOR m13 (b0 q))
                  (m13 (b3 q) XOR m9 (b2 q) XOR m14 (b1 q) XOR m11 (b0 q))
                  (m11 (b3 q) XOR m13 (b2 q) XOR m9 (b1 q) XOR m14 (b0 q))"
  by (simp add: imcw_def H_lanes lanes_xor)

lemma imcw_xor: "imcw (x XOR y) = imcw x XOR imcw y"
  by (simp add: imcw_lanes b_xor m_xor lanes_xor xor_ac)

lemma imcw_mcw: "imcw (mcw q) = q"
proof -
  have B: "is_byte (m2 (b3 q) XOR m3 (b2 q) XOR b1 q XOR b0 q)"
          "is_byte (b3 q XOR m2 (b2 q) XOR m3 (b1 q) XOR b0 q)"
          "is_byte (b3 q XOR b2 q XOR m2 (b1 q) XOR m3 (b0 q))"
          "is_byte (m3 (b3 q) XOR b2 q XOR b1 q XOR m2 (b0 q))"
    by (simp_all add: is_byte_xor is_byte_m is_byte_m2)
  have "imcw (mcw q) = lanes (b3 q) (b2 q) (b1 q) (b0 q)"
    unfolding imcw_lanes [of "mcw q"]
    unfolding mcw_lanes b_lanes [OF B]
    by (simp add: m_xor m2_xor m3_def m9_def m11_def m13_def m14_def m8_def m4_def xor_ac)
  then show ?thesis by (simp add: lanes_b)
qed

lemma list_all_zip_nth:
  assumes "list_all (\<lambda>p. P (fst p) (snd p)) (zip xs [0..<length xs])" and "n < length xs"
  shows "P (xs ! n) n"
proof -
  have "(xs ! n, [0..<length xs] ! n) \<in> set (zip xs [0..<length xs])"
    using assms(2) by (auto simp: set_zip intro!: exI [of _ n])
  then have "P (fst (xs ! n, [0..<length xs] ! n)) (snd (xs ! n, [0..<length xs] ! n))"
    using assms(1) unfolding list_all_iff by (rule_tac bspec)
  then show ?thesis using assms(2) by simp
qed

lemma SBOX_length: "length SBOX = 256" by (simp add: SBOX_def)

lemma sbox_all:
  "list_all (\<lambda>p. is_byte (fst p) \<and> aget INV_SBOX (unat (fst p)) = of_nat (snd p))
     (zip SBOX [0..<length SBOX])"
  unfolding SBOX_length
  by (simp add: SBOX_def INV_SBOX_def aget_def is_byte_def upt_rec)

lemma Sb_props:
  assumes "is_byte v"
  shows "is_byte (Sb v)" and "aget INV_SBOX (unat (Sb v)) = v"
proof -
  have l: "unat v < length SBOX" using is_byte_unat [OF assms] by (simp only: SBOX_length)
  have "is_byte (SBOX ! unat v) \<and> aget INV_SBOX (unat (SBOX ! unat v)) = of_nat (unat v)"
    using sbox_all l
    by (rule list_all_zip_nth [where P = "\<lambda>x n. is_byte x \<and> aget INV_SBOX (unat x) = of_nat n"])
  then show "is_byte (Sb v)" and "aget INV_SBOX (unat (Sb v)) = v"
    using l by (simp_all add: Sb_def aget_def)
qed

lemma aget_map_upt: "n < k \<Longrightarrow> aget (map f [0..<k]) n = f n"
  by (simp add: aget_def)

lemma SUB_MIX_lookup:
  assumes "is_byte v"
  shows "aget SUB_MIX_0 (unat v) = G0 (Sb v)" "aget SUB_MIX_1 (unat v) = G1 (Sb v)"
        "aget SUB_MIX_2 (unat v) = G2 (Sb v)" "aget SUB_MIX_3 (unat v) = G3 (Sb v)"
  using is_byte_unat [OF assms]
  by (simp_all add: SUB_MIX_0_def SUB_MIX_1_def SUB_MIX_2_def SUB_MIX_3_def aget_map_upt
        G0_def G1_def G2_def G3_def Sb_def)

lemma INV_SUB_MIX_lookup:
  assumes "is_byte v"
  shows "aget INV_SUB_MIX_0 (unat (Sb v)) = H0 v" "aget INV_SUB_MIX_1 (unat (Sb v)) = H1 v"
        "aget INV_SUB_MIX_2 (unat (Sb v)) = H2 v" "aget INV_SUB_MIX_3 (unat (Sb v)) = H3 v"
  using is_byte_unat [OF Sb_props(1) [OF assms]] Sb_props(2) [OF assms]
  by (simp_all add: INV_SUB_MIX_0_def INV_SUB_MIX_1_def INV_SUB_MIX_2_def INV_SUB_MIX_3_def
        aget_map_upt H0_def H1_def H2_def H3_def)

lemma sub_column_lanes:
  "sub_column SBOX sa sb sc sd = lanes (Sb (b3 sa)) (Sb (b2 sb)) (Sb (b1 sc)) (Sb (b0 sd))"
  by (simp add: sub_column_def lanes_or Sb_props Sb_def [symmetric])

lemma b_sub_column:
  "b3 (sub_column SBOX sa sb sc sd) = Sb (b3 sa)" "b2 (sub_column SBOX sa sb sc sd) = Sb (b2 sb)"
  "b1 (sub_column SBOX sa sb sc sd) = Sb (b1 sc)" "b0 (sub_column SBOX sa sb sc sd) = Sb (b0 sd)"
  by (simp_all add: sub_column_lanes b_lanes Sb_props)

lemma mix_column_enc:
  "mix_column (SUB_MIX_0, SUB_MIX_1, SUB_MIX_2, SUB_MIX_3) sa sb sc sd
     = mcw (sub_column SBOX sa sb sc sd)"
  by (simp add: mix_column_def mcw_def b_sub_column SUB_MIX_lookup)

lemma mix_column_dec:
  "mix_column (INV_SUB_MIX_0, INV_SUB_MIX_1, INV_SUB_MIX_2, INV_SUB_MIX_3)
     (sub_column SBOX a0 x1 x2 x3) (sub_column SBOX y0 a1 y2 y3)
     (sub_column SBOX z0 z1 a2 z3) (sub_column SBOX w0 w1 w2 a3)
   = H0 (b3 a0) XOR H1 (b2 a1) XOR H2 (b1 a2) XOR H3 (b0 a3)"
  by (simp add: mix_column_def b_sub_column INV_SUB_MIX_lookup)

lemma mix_round_enc:
  "mix_round (SUB_MIX_0, SUB_MIX_1, SUB_MIX_2, SUB_MIX_3) ks (4 * r) s
     = xor4 (map4 mcw (subS s)) (kblock ks r)"
  by (cases s) (simp add: mix_round_def mix_column_enc kblock_def)

lemma last_round_enc: "last_round SBOX ks (4 * r) s = xor4 (subS s) (kblock ks r)"
  by (cases s) (simp add: last_round_def kblock_def)

lemma mix_round_dec:
  "mix_round (INV_SUB_MIX_0, INV_SUB_MIX_1, INV_SUB_MIX_2, INV_SUB_MIX_3) iks (4 * r) (swp (subS e))
     = xor4 (swp (map4 imcw e)) (kblock iks r)"
  by (cases e) (simp add: mix_round_def mix_column_dec kblock_def imcw_def)

lemma INV_SBOX_Sb: "is_byte v \<Longrightarrow> aget INV_SBOX (unat (Sb v)) = v"
  by (rule Sb_props)

lemma sub_column_dec:
  "sub_column INV_SBOX (sub_column SBOX a0 x1 x2 x3) (sub_column SBOX y0 a1 y2 y3)
     (sub_column SBOX z0 z1 a2 z3) (sub_column SBOX w0 w1 w2 a3)
   = lanes (b3 a0) (b2 a1) (b1 a2) (b0 a3)"
  by (simp add: sub_column_def [of INV_SBOX] b_sub_column INV_SBOX_Sb lanes_or)

lemma last_round_dec:
  "last_round INV_SBOX iks (4 * r) (swp (subS e)) = xor4 (swp e) (kblock iks r)"
  by (cases e) (simp add: last_round_def sub_column_dec kblock_def lanes_b)

lemma swp_swp [simp]: "swp (swp a) = a" by (cases a) simp
lemma swp_xor4: "swp (xor4 a b) = xor4 (swp a) (swp b)" by (cases a; cases b) simp
lemma xor4_cancel [simp]: "xor4 (xor4 a b) b = a" by (cases a; cases b) (simp add: xor_ac)
lemma swp_map4: "swp (map4 f a) = map4 f (swp a)" by (cases a) simp
lemma map4_imcw_xor4: "map4 imcw (xor4 a b) = xor4 (map4 imcw a) (map4 imcw b)"
  by (cases a; cases b) (simp add: imcw_xor)
lemma map4_imcw_mcw [simp]: "map4 imcw (map4 mcw a) = a" by (cases a) (simp add: imcw_mcw)

lemma crypt_state_inverse:
  assumes N: "1 \<le> N"
    and k0: "kblock iks 0 = swp (kblock ks N)"
    and kN: "kblock iks N = swp (kblock ks 0)"
    and kr: "\<And>r. 0 < r \<Longrightarrow> r < N \<Longrightarrow> kblock iks r = swp (map4 imcw (kblock ks (N - r)))"
  shows "swp (crypt_state iks N (INV_SUB_MIX_0, INV_SUB_MIX_1, INV_SUB_MIX_2, INV_SUB_MIX_3) INV_SBOX
               (swp (crypt_state ks N (SUB_MIX_0, SUB_MIX_1, SUB_MIX_2, SUB_MIX_3) SBOX s))) = s"
proof -
  let ?T = "(SUB_MIX_0, SUB_MIX_1, SUB_MIX_2, SUB_MIX_3)"
  let ?IT = "(INV_SUB_MIX_0, INV_SUB_MIX_1, INV_SUB_MIX_2, INV_SUB_MIX_3)"
  define e0 where "e0 = xor4 s (kblock ks 0)"
  define E where "E r = foldl (\<lambda>s j. mix_round ?T ks (4 * j) s) e0 [1..<Suc r]" for r
  define c where "c = crypt_state ks N ?T SBOX s"
  define d0 where "d0 = xor4 (swp c) (kblock iks 0)"
  define D where "D r = foldl (\<lambda>s j. mix_round ?IT iks (4 * j) s) d0 [1..<Suc r]" for r
  have E0: "E 0 = e0" by (simp add: E_def)
  have ES: "E (Suc r) = xor4 (map4 mcw (subS (E r))) (kblock ks (Suc r))" for r
    by (simp add: E_def mix_round_enc)
  have D0: "D 0 = d0" by (simp add: D_def)
  have DS: "D (Suc r) = mix_round ?IT iks (4 * Suc r) (D r)" for r
    by (simp add: D_def)
  have NN: "[1..<N] = [1..<Suc (N - 1)]" using N by simp
  have c_eq: "c = xor4 (subS (E (N - 1))) (kblock ks N)"
    unfolding c_def crypt_state_def NN E_def [symmetric] e0_def [symmetric]
    by (simp add: last_round_enc)
  have inv: "r \<le> N - 1 \<Longrightarrow> D r = swp (subS (E (N - 1 - r)))" for r
  proof (induction r)
    case 0
    show ?case by (simp add: D0 d0_def c_eq k0 swp_xor4)
  next
    case (Suc r)
    then have r: "r \<le> N - 1" and rr: "0 < Suc r" "Suc r < N" by simp_all
    have idx: "N - 1 - r = Suc (N - 1 - Suc r)" "N - Suc r = Suc (N - 1 - Suc r)" using Suc.prems by simp_all
    have "D (Suc r) = xor4 (swp (map4 imcw (E (N - 1 - r)))) (kblock iks (Suc r))"
      unfolding DS Suc.IH [OF r] by (rule mix_round_dec)
    also have "kblock iks (Suc r) = swp (map4 imcw (kblock ks (N - Suc r)))"
      using rr by (rule kr)
    also have "E (N - 1 - r) = xor4 (map4 mcw (subS (E (N - 1 - Suc r)))) (kblock ks (N - Suc r))"
      unfolding idx by (rule ES)
    finally show ?case by (simp add: map4_imcw_xor4 swp_xor4)
  qed
  have "crypt_state iks N ?IT INV_SBOX (swp c) = last_round INV_SBOX iks (4 * N) (D (N - 1))"
    unfolding crypt_state_def NN D_def d0_def ..
  also have "\<dots> = xor4 (swp (E 0)) (kblock iks N)"
    using inv [of "N - 1"] by (simp add: last_round_dec)
  finally show ?thesis
    unfolding c_def [symmetric] by (simp add: E0 e0_def kN swp_xor4)
qed

lemma aset_length_snoc: "aset a (length a) v = a @ [v]"
  by (simp add: aset_def)

lemma foldl_aset_map: "foldl (\<lambda>a i. aset a i (f i)) [] [0..<n] = map f [0..<n]"
  by (induction n) (simp_all add: aset_def)

lemma invKeySchedule_eq:
  "invKeySchedule (AES_doReset key)
     = map (inv_ks_row (keySchedule (AES_doReset key)) (nat (sigBytes key) + 28))
         [0..<nat (sigBytes key) + 28]"
  by (simp add: AES_doReset_def Let_def foldl_aset_map)

lemma nRounds4_eq: "nRounds4 (AES_doReset key) = nat (sigBytes key) + 24"
  by (simp add: AES_doReset_def Let_def)

lemma imix_eq:
  "aget INV_SUB_MIX_0 (unat (aget SBOX (unat (b3 t))))
     XOR aget INV_SUB_MIX_1 (unat (aget SBOX (unat (b2 t))))
     XOR aget INV_SUB_MIX_2 (unat (aget SBOX (unat (b1 t))))
     XOR aget INV_SUB_MIX_3 (unat (aget SBOX (unat (b0 t)))) = imcw t"
  by (simp add: imcw_def INV_SUB_MIX_lookup Sb_def [symmetric])

lemma inv_ks_row_eq:
  assumes r: "r \<le> N" and R: "R = 4 * N + 4" and c: "c < 4"
  shows "inv_ks_row ks R (4 * r + c)
           = (if r = 0 \<or> r = N then id else imcw) (aget ks (4 * (N - r) + (4 - c) mod 4))"
proof -
  have m: "(4 * r + c) mod 4 = c" using c by simp
  have k: "R - (4 * r + c) = 4 * (N - r) + 4 - c" using r c R by simp
  have raw: "(4 * r + c < 4 \<or> 4 * (N - r) + 4 - c \<le> 4) = (r = 0 \<or> r = N)"
    using r c by auto
  show ?thesis
  proof (cases "c = 0")
    case True
    then show ?thesis
      unfolding inv_ks_row_def Let_def m k imix_eq raw by simp
  next
    case False
    then have "4 * (N - r) + 4 - c = 4 * (N - r) + (4 - c) mod 4" using c by simp
    with False show ?thesis
      unfolding inv_ks_row_def Let_def m k imix_eq raw by simp
  qed
qed

lemma kblock_inv:
  assumes r: "r \<le> N" and R: "R = 4 * N + 4"
  shows "kblock (map (inv_ks_row ks R) [0..<R]) r
           = swp (map4 (if r = 0 \<or> r = N then id else imcw) (kblock ks (N - r)))"
proof -
  have e: "aget (map (inv_ks_row ks R) [0..<R]) (4 * r + c)
             = (if r = 0 \<or> r = N then id else imcw) (aget ks (4 * (N - r) + (4 - c) mod 4))"
    if "c < 4" for c
  proof -
    have "4 * r + c < R" using r R that by simp
    then show ?thesis by (simp only: aget_map_upt inv_ks_row_eq [OF r R that])
  qed
  show ?thesis
    using e [of 0] e [of 1] e [of 2] e [of 3] by (simp add: kblock_def)
qed

lemma map4_id [simp]: "map4 id a = a" by (cases a) simp

text \<open>Keys of a whole number of words.\<close>

lemma AES_inverse_state:
  assumes "sigBytes key = int (4 * Nk)"
  defines "aes \<equiv> AES_doReset key"
  defines "N \<equiv> (nRounds4 aes + 3) div 4"
  shows "swp (crypt_state (invKeySchedule aes) N (INV_SUB_MIX_0, INV_SUB_MIX_1, INV_SUB_MIX_2, INV_SUB_MIX_3) INV_SBOX
               (swp (crypt_state (keySchedule aes) N (SUB_MIX_0, SUB_MIX_1, SUB_MIX_2, SUB_MIX_3) SBOX s))) = s"
proof -
  define R where "R = nat (sigBytes key) + 28"
  have N: "N = Nk + 6" unfolding N_def aes_def nRounds4_eq using assms(1) by simp
  have R: "R = 4 * N + 4" unfolding N R_def using assms(1) by simp
  have iks: "invKeySchedule aes = map (inv_ks_row (keySchedule aes) R) [0..<R]"
    unfolding aes_def invKeySchedule_eq R_def ..
  have kb: "kblock (invKeySchedule aes) r
           = swp (map4 (if r = 0 \<or> r = N then id else imcw) (kblock (keySchedule aes) (N - r)))"
    if "r \<le> N" for r
    unfolding iks using that R by (rule kblock_inv)
  show ?thesis
  proof (rule crypt_state_inverse)
    show "1 \<le> N" unfolding N by simp
    show "kblock (invKeySchedule aes) 0 = swp (kblock (keySchedule aes) N)"
      using kb [of 0] by simp
    show "kblock (invKeySchedule aes) N = swp (kblock (keySchedule aes) 0)"
      using kb [of N] by simp
    show "kblock (invKeySchedule aes) r = swp (map4 imcw (kblock (keySchedule aes) (N - r)))"
      if "0 < r" "r < N" for r
      using kb [of r] that by simp
  qed
qed

lemma Db_Eb:
  assumes "sigBytes key = int (4 * Nk)"
  shows "Db (AES_doReset key) (Eb (AES_doReset key) s) = s"
  unfolding Db_def Eb_def using assms by (rule AES_inverse_state)

lemma fold_rounds:
  "a \<le> b \<Longrightarrow>
   foldl (\<lambda>(s, ksRow) round. (mix_round T ks ksRow s, ksRow + 4)) (s, 4 * a) [a..<b]
     = (foldl (\<lambda>s r. mix_round T ks (4 * r) s) s [a..<b], 4 * b)"
  by (induction b rule: dec_induct) simp_all

lemma doCryptBlock_eq:
  assumes "1 \<le> (nr4 + 3) div 4"
  shows "doCryptBlock M off ks nr4 T S
           = set4 M off (crypt_state ks ((nr4 + 3) div 4) T S (get4 M off))"
proof -
  have k0: "kblock ks 0 = (aget ks 0, aget ks 1, aget ks 2, aget ks 3)"
    by (simp add: kblock_def numeral_2_eq_2)
  have x: "(aget M off XOR aget ks 0, aget M (off + 1) XOR aget ks 1,
            aget M (off + 2) XOR aget ks 2, aget M (off + 3) XOR aget ks 3)
             = xor4 (get4 M off) (kblock ks 0)"
    by (simp add: get4_def k0)
  have f: "foldl (\<lambda>(s, ksRow) round. (mix_round T ks ksRow s, ksRow + 4)) (s, 4) [1..<(nr4 + 3) div 4]
     = (foldl (\<lambda>s r. mix_round T ks (4 * r) s) s [1..<(nr4 + 3) div 4], 4 * ((nr4 + 3) div 4))" for s
    using fold_rounds [OF assms, of T ks s] by simp
  show ?thesis
    unfolding doCryptBlock_def Let_def x f crypt_state_def
    by (cases "last_round S ks (4 * ((nr4 + 3) div 4))
                 (foldl (\<lambda>s r. mix_round T ks (4 * r) s) (xor4 (get4 M off) (kblock ks 0)) [1..<(nr4 + 3) div 4])")
       simp
qed

lemma rounds_ge1: "1 \<le> (nRounds4 (AES_doReset key) + 3) div 4"
  by (simp add: nRounds4_eq)

lemma encryptBlock_eq:
  "encryptBlock (AES_doReset key) M off = set4 M off (Eb (AES_doReset key) (get4 M off))"
  unfolding encryptBlock_def Eb_def by (rule doCryptBlock_eq) (rule rounds_ge1)

lemma aget_append2: "aget (pre @ ys) (length pre + i) = aget ys i"
  by (simp add: aget_def nth_append)

lemma aset_append2: "aset (pre @ ys) (length pre + i) v = pre @ aset ys i v"
  by (simp add: aset_def list_update_append)

lemma get4_append: "get4 (pre @ ys) (length pre) = get4 ys 0"
proof -
  have a: "aget (pre @ ys) (length pre) = aget ys 0" using aget_append2 [of pre ys 0] by simp
  show ?thesis unfolding get4_def a aget_append2 by (simp add: numeral_2_eq_2)
qed

lemma set4_append: "set4 (pre @ ys) (length pre) t = pre @ set4 ys 0 t"
proof (cases t)
  case (fields t0 t1 t2 t3)
  have a: "aset (pre @ ys) (length pre) v = pre @ aset ys 0 v" for v
    using aset_append2 [of pre ys 0 v] by simp
  show ?thesis unfolding fields set4.simps a aset_append2 by (simp add: numeral_2_eq_2)
qed

lemma length_list4 [simp]: "length (list4 s) = 4"
  by (cases s) simp

lemma get4_list4: "get4 (list4 s @ x) 0 = s"
  by (cases s) (simp add: get4_def aget_def)

lemma set4_list4: "set4 (list4 s @ x) 0 t = list4 t @ x"
  by (cases s; cases t) (simp add: aset_def)

lemma encryptBlock_append:
  "encryptBlock (AES_doReset key) (pre @ list4 s @ x) (length pre)
     = pre @ list4 (Eb (AES_doReset key) s) @ x"
  by (simp add: encryptBlock_eq get4_append set4_append get4_list4 set4_list4)

lemma swap13_append: "swap13 (pre @ list4 s @ x) (length pre) = pre @ list4 (swp s) @ x"
proof -
  have "swap13 (pre @ ys) (length pre) = pre @ swap13 ys 0" for ys
    unfolding swap13_def Let_def aget_append2 aset_append2 by simp
  moreover have "swap13 (list4 s @ x) 0 = list4 (swp s) @ x"
    by (cases s) (simp add: swap13_def aget_def aset_def)
  ultimately show ?thesis by simp
qed

lemma decryptBlock_append:
  "decryptBlock (AES_doReset key) (pre @ list4 c @ x) (length pre)
     = pre @ list4 (Db (AES_doReset key) c) @ x"
proof -
  have "doCryptBlock (pre @ list4 (swp c) @ x) (length pre) (invKeySchedule (AES_doReset key))
          (nRounds4 (AES_doReset key)) (INV_SUB_MIX_0, INV_SUB_MIX_1, INV_SUB_MIX_2, INV_SUB_MIX_3) INV_SBOX
        = pre @ list4 (swp (Db (AES_doReset key) c)) @ x"
    by (simp add: doCryptBlock_eq [OF rounds_ge1] get4_append set4_append get4_list4 set4_list4 Db_def)
  then show ?thesis
    by (simp add: decryptBlock_def swap13_append)
qed

lemma xorBlock_append:
  "xorBlock (pre @ list4 s @ x) (length pre) blk = pre @ list4 (xor4 s (get4 blk 0)) @ x"
proof -
  have u: "[0..<4] = [0, 1, 2, 3]" by (simp add: upt_rec)
  have "xorBlock (pre @ ys) (length pre) blk = pre @ xorBlock ys 0 blk" for ys
    unfolding xorBlock_def u foldl.simps aget_append2 aset_append2 by (simp add: numeral_2_eq_2)
  moreover have "xorBlock (list4 s @ x) 0 blk = list4 (xor4 s (get4 blk 0)) @ x"
    by (cases s) (simp add: xorBlock_def u get4_def aget_def aset_def numeral_2_eq_2 numeral_3_eq_3)
  ultimately show ?thesis by simp
qed

lemma take4_drop_append: "take 4 (drop (length pre) (pre @ list4 c @ x)) = list4 c"
  by (cases c) simp

lemma CBC_enc_step:
  "CBC_Encryptor_processBlock (AES_doReset key) (pre @ list4 s @ x, prev) (length pre)
     = (pre @ list4 (Eb (AES_doReset key) (xor4 s (get4 prev 0))) @ x,
        list4 (Eb (AES_doReset key) (xor4 s (get4 prev 0))))"
  by (simp add: CBC_Encryptor_processBlock_def Let_def xorBlock_append encryptBlock_append
        take4_drop_append)

lemma CBC_dec_step:
  "CBC_Decryptor_processBlock (AES_doReset key) (pre @ list4 c @ x, prev) (length pre)
     = (pre @ list4 (xor4 (Db (AES_doReset key) c) (get4 prev 0)) @ x, list4 c)"
  by (simp add: CBC_Decryptor_processBlock_def Let_def xorBlock_append decryptBlock_append
        take4_drop_append)

section \<open>The claims\<close>

text \<open>
  C3.  Frame validation in \<open>decryptText\<close>: a buffer of fewer than 4 bytes is rejected with
  the "not valid ciphertext" error; so is a buffer whose first 4 bytes are not
  \<open>00 02 73 DB\<close>; in every other case the frame stage yields a word array whose bytes are
  exactly the buffer from offset 4 onward, and that word array is what the cipher stage
  receives.
\<close>

theorem frame_validation:
  "(length buffer < 4 \<longrightarrow> decryptText buffer key = Inl InvalidCiphertext) \<and>
   (4 \<le> length buffer \<and> take 4 buffer \<noteq> [0x00, 0x02, 0x73, 0xDB]
      \<longrightarrow> decryptText buffer key = Inl InvalidCiphertext) \<and>
   (4 \<le> length buffer \<and> take 4 buffer = [0x00, 0x02, 0x73, 0xDB]
      \<longrightarrow> (\<exists>ciphertext. unwrap buffer = Inr ciphertext
             \<and> wordArrayToArrayBuffer ciphertext = Inr (drop 4 buffer)
             \<and> decryptText buffer key = decrypt_content ciphertext key))"
  by (auto simp: decryptText_def unwrap_short unwrap_bad_marker unwrap_ok unwrapped_bytes)

theorem frame_validation_witness:
  "decryptText [0x00, 0x02] [] = Inl InvalidCiphertext \<and>
   decryptText [0x00, 0x02, 0x73, 0xDC, 0x05] [] = Inl InvalidCiphertext \<and>
   (\<exists>ciphertext. unwrap [0x00, 0x02, 0x73, 0xDB, 0x05] = Inr ciphertext
       \<and> wordArrayToArrayBuffer ciphertext = Inr [0x05]
       \<and> decryptText [0x00, 0x02, 0x73, 0xDB, 0x05] [] = decrypt_content ciphertext [])"
  using frame_validation [of "[0x00, 0x02]" "[]"]
    frame_validation [of "[0x00, 0x02, 0x73, 0xDC, 0x05]" "[]"]
    frame_validation [of "[0x00, 0x02, 0x73, 0xDB, 0x05]" "[]"]
  by simp

end
